theory Spec2Isabelle
  imports Main
begin

section \<open>JavaScript values and plain objects\<close>

text \<open>
  The values that the modelled functions inspect. A number carries an integer payload
  (the code never computes with a property value, it only asks for its \<open>typeof\<close>);
  functions and non-array objects are opaque.
\<close>

datatype jsvalue =
    JSUndefined
  | JSNull
  | JSBoolean bool
  | JSNumber int
  | JSString string
  | JSArray "jsvalue list"
  | JSObject
  | JSFunction

text \<open>\<open>typeof v\<close>.\<close>

fun typeof :: "jsvalue \<Rightarrow> string" where
  "typeof JSUndefined = ''undefined''"
| "typeof JSNull = ''object''"
| "typeof (JSBoolean b) = ''boolean''"
| "typeof (JSNumber n) = ''number''"
| "typeof (JSString s) = ''string''"
| "typeof (JSArray vs) = ''object''"
| "typeof JSObject = ''object''"
| "typeof JSFunction = ''function''"

text \<open>\<open>Array.isArray(v)\<close>.\<close>

fun isArray :: "jsvalue \<Rightarrow> bool" where
  "isArray (JSArray vs) = True"
| "isArray v = False"

text \<open>
  The truth value a condition, \<open>&&\<close> or the callback of \<open>Array.prototype.filter\<close>
  reads off a value (ToBoolean).
\<close>

fun truthy :: "jsvalue \<Rightarrow> bool" where
  "truthy JSUndefined = False"
| "truthy JSNull = False"
| "truthy (JSBoolean b) = b"
| "truthy (JSNumber n) = (n \<noteq> 0)"
| "truthy (JSString s) = (s \<noteq> [])"
| "truthy (JSArray vs) = True"
| "truthy JSObject = True"
| "truthy JSFunction = True"

text \<open>
  An object literal is the list of its own enumerable properties, in the order of
  \<open>Object.entries\<close>; its prototype is \<open>Object.prototype\<close>, whose members every
  property read and every \<open>in\<close> test on the literal also sees.
\<close>

definition object_prototype_keys :: "string list" where
  "object_prototype_keys =
     [''constructor'', ''__defineGetter__'', ''__defineSetter__'', ''hasOwnProperty'',
      ''__lookupGetter__'', ''__lookupSetter__'', ''isPrototypeOf'',
      ''propertyIsEnumerable'', ''toString'', ''valueOf'', ''__proto__'',
      ''toLocaleString'']"

text \<open>The value of an inherited member: \<open>__proto__\<close> is an object, the others functions.\<close>

definition inherited_value :: "string \<Rightarrow> jsvalue" where
  "inherited_value k =
     (if k = ''__proto__'' then JSObject
      else if k \<in> set object_prototype_keys then JSFunction
      else JSUndefined)"

text \<open>\<open>k in obj\<close>: own or inherited.\<close>

definition js_in :: "string \<Rightarrow> (string \<times> 'v) list \<Rightarrow> bool" where
  "js_in k obj = (k \<in> set (map fst obj) \<or> k \<in> set object_prototype_keys)"

text \<open>\<open>obj[k]\<close>, with \<open>wrap\<close> turning an own property's stored value into a value.\<close>

definition js_get :: "('v \<Rightarrow> jsvalue) \<Rightarrow> (string \<times> 'v) list \<Rightarrow> string \<Rightarrow> jsvalue" where
  "js_get wrap obj k =
     (case map_of obj k of
        Some v \<Rightarrow> wrap v
      | None \<Rightarrow> inherited_value k)"

section \<open>Feature flags (core/constants/feature-flags.ts)\<close>

type_synonym flag_table = "(string \<times> bool) list"

text \<open>\<open>process.env\<close>: every variable that is set is a string.\<close>

type_synonym process_env = "string \<rightharpoonup> string"

definition FEATURE_FLAGS :: flag_table where
  "FEATURE_FLAGS =
     [(''HERO_SECTION'', True),
      (''FEATURES_SECTION'', False),
      (''PRICING_SECTION'', False),
      (''TESTIMONIALS_SECTION'', False),
      (''CONTACT_SECTION'', False)]"

text \<open>
  \<open>isFeatureEnabled\<close>. The table is an argument because \<open>setFeatureFlag\<close> may
  assign to its members in development mode; \<open>FEATURE_FLAGS\<close> is its initial value.
  The declared result type is \<open>boolean\<close>, but the last line returns whatever the
  property read yields, so the result is a \<open>jsvalue\<close>.
\<close>

definition isFeatureEnabled :: "flag_table \<Rightarrow> process_env \<Rightarrow> string \<Rightarrow> jsvalue" where
  "isFeatureEnabled flags env feature =
     (if env ''NODE_ENV'' = Some ''development'' then
        (case env (''FEATURE_'' @ feature) of
           Some envOverride \<Rightarrow> JSBoolean (envOverride = ''true'')
         | None \<Rightarrow> js_get JSBoolean flags feature)
      else js_get JSBoolean flags feature)"

section \<open>Section types (core/types/section.types.ts)\<close>

type_synonym SectionId = string

text \<open>A component is an opaque handle.\<close>

type_synonym component = nat

text \<open>
  \<open>order\<close> is a JavaScript number; the model takes the integers, on which the
  comparator \<open>a.config.order - b.config.order\<close> is exact in sign.
\<close>

record SectionConfig =
  id_cfg :: string
  name :: string
  version :: string
  enabled :: bool
  dependencies :: "string list"
  props :: "(string \<times> string) list"
  order :: int
  component_cfg :: "component option"

record SectionRegistryEntry =
  config :: SectionConfig
  component :: component

section \<open>The registry (layouts/section-registry.ts)\<close>

subsection \<open>A JavaScript \<open>Map\<close>\<close>

text \<open>
  A \<open>Map\<close> iterates in the order in which its keys were first inserted; \<open>set\<close> on a
  key that is present replaces the value and keeps the key's position.
\<close>

fun Map_set :: "'k \<Rightarrow> 'v \<Rightarrow> ('k \<times> 'v) list \<Rightarrow> ('k \<times> 'v) list" where
  "Map_set k v [] = [(k, v)]"
| "Map_set k v ((k', v') # m) = (if k' = k then (k, v) # m else (k', v') # Map_set k v m)"

definition Map_get :: "('k \<times> 'v) list \<Rightarrow> 'k \<Rightarrow> 'v option" where
  "Map_get m k = map_of m k"

definition Map_has :: "('k \<times> 'v) list \<Rightarrow> 'k \<Rightarrow> bool" where
  "Map_has m k = (k \<in> set (map fst m))"

definition Map_delete :: "'k \<Rightarrow> ('k \<times> 'v) list \<Rightarrow> ('k \<times> 'v) list" where
  "Map_delete k m = filter (\<lambda>kv. fst kv \<noteq> k) m"

definition Map_values :: "('k \<times> 'v) list \<Rightarrow> 'v list" where
  "Map_values m = map snd m"

subsection \<open>\<open>Array.prototype.sort\<close> with a comparator\<close>

text \<open>
  The sort is stable (ECMAScript 2019). The elements are inserted from the last to the
  first, each in front of the first element that the comparator does not put before it,
  so elements that compare equal keep their order.
\<close>

fun sort_insert :: "('a \<Rightarrow> 'a \<Rightarrow> int) \<Rightarrow> 'a \<Rightarrow> 'a list \<Rightarrow> 'a list" where
  "sort_insert cmp x [] = [x]"
| "sort_insert cmp x (y # ys) =
     (if cmp x y \<le> 0 then x # y # ys else y # sort_insert cmp x ys)"

definition Array_sort :: "('a \<Rightarrow> 'a \<Rightarrow> int) \<Rightarrow> 'a list \<Rightarrow> 'a list" where
  "Array_sort cmp xs = foldr (sort_insert cmp) xs []"

text \<open>The comparator \<open>(a, b) => a.config.order - b.config.order\<close>.\<close>

definition byOrder :: "SectionRegistryEntry \<Rightarrow> SectionRegistryEntry \<Rightarrow> int" where
  "byOrder a b = order (config a) - order (config b)"

subsection \<open>\<open>SectionRegistryManager\<close>\<close>

type_synonym promise_ref = nat

record SectionRegistryManager =
  sections :: "(SectionId \<times> SectionRegistryEntry) list"
  loadPromises :: "(SectionId \<times> promise_ref) list"

definition AVAILABLE_SECTIONS :: "SectionId list" where
  "AVAILABLE_SECTIONS = [''hero'']"

definition register :: "SectionId \<Rightarrow> SectionRegistryEntry \<Rightarrow> SectionRegistryManager \<Rightarrow> SectionRegistryManager" where
  "register i entry r = r\<lparr>sections := Map_set i entry (sections r)\<rparr>"

definition getSection :: "SectionRegistryManager \<Rightarrow> SectionId \<Rightarrow> SectionRegistryEntry option" where
  "getSection r i = Map_get (sections r) i"

definition getAllSections :: "SectionRegistryManager \<Rightarrow> SectionRegistryEntry list" where
  "getAllSections r = Map_values (sections r)"

definition getEnabledSections ::
  "flag_table \<Rightarrow> process_env \<Rightarrow> SectionRegistryManager \<Rightarrow> SectionRegistryEntry list" where
  "getEnabledSections flags env r =
     Array_sort byOrder
       (filter (\<lambda>entry. truthy (isFeatureEnabled flags env (id_cfg (config entry))))
          (getAllSections r))"

definition getSectionsInOrder ::
  "flag_table \<Rightarrow> process_env \<Rightarrow> SectionRegistryManager \<Rightarrow> SectionRegistryEntry list" where
  "getSectionsInOrder flags env r = Array_sort byOrder (getEnabledSections flags env r)"

definition hasSection :: "SectionRegistryManager \<Rightarrow> SectionId \<Rightarrow> bool" where
  "hasSection r i = Map_has (sections r) i"

text \<open>
  \<open>this.hasSection(id) && isFeatureEnabled(id)\<close>: \<open>&&\<close> yields its left operand when
  that is false and its right operand, unconverted, otherwise.
\<close>

definition isSectionEnabled ::
  "flag_table \<Rightarrow> process_env \<Rightarrow> SectionRegistryManager \<Rightarrow> SectionId \<Rightarrow> jsvalue" where
  "isSectionEnabled flags env r i =
     (if hasSection r i then isFeatureEnabled flags env i else JSBoolean False)"

text \<open>The message of \<open>validateDependencies\<close>; character 0x22 is the double quote.\<close>

definition dependencyError :: "SectionRegistryEntry \<Rightarrow> string \<Rightarrow> string" where
  "dependencyError entry dep =
     ''Section '' @ [CHR 0x22] @ id_cfg (config entry) @ [CHR 0x22] @
     '' requires missing dependency: '' @ [CHR 0x22] @ dep @ [CHR 0x22]"

record validation =
  valid :: bool
  errors :: "string list"

text \<open>The inner loop \<open>for (const dep of entry.config.dependencies)\<close>.\<close>

fun checkDependencies ::
  "SectionRegistryManager \<Rightarrow> SectionRegistryEntry \<Rightarrow> string list \<Rightarrow> string list \<Rightarrow> string list" where
  "checkDependencies r entry [] errs = errs"
| "checkDependencies r entry (dep # deps) errs =
     checkDependencies r entry deps
       (if \<not> hasSection r dep then errs @ [dependencyError entry dep] else errs)"

text \<open>The outer loop \<open>for (const entry of sections)\<close>.\<close>

fun checkSections ::
  "SectionRegistryManager \<Rightarrow> SectionRegistryEntry list \<Rightarrow> string list \<Rightarrow> string list" where
  "checkSections r [] errs = errs"
| "checkSections r (entry # rest) errs =
     checkSections r rest (checkDependencies r entry (dependencies (config entry)) errs)"

definition validateDependencies ::
  "flag_table \<Rightarrow> process_env \<Rightarrow> SectionRegistryManager \<Rightarrow> validation" where
  "validateDependencies flags env r =
     (let errs = checkSections r (getEnabledSections flags env r) []
      in \<lparr>valid = (length errs = 0), errors = errs\<rparr>)"

datatype LoadStatus = Loaded | Loading | NotLoaded | Error

definition allSectionIds :: "SectionId list" where
  "allSectionIds = [''hero'', ''features'', ''pricing'', ''testimonials'', ''contact'']"

text \<open>
  The loop of \<open>getLoadStatus\<close>. The result object starts empty; an assignment to a
  member appends the key or overwrites it in place, which is \<open>Map_set\<close> on the list of
  own properties.
\<close>

fun fillStatus ::
  "SectionRegistryManager \<Rightarrow> SectionId list \<Rightarrow> (SectionId \<times> LoadStatus) list \<Rightarrow>
   (SectionId \<times> LoadStatus) list" where
  "fillStatus r [] status = status"
| "fillStatus r (i # ids) status =
     fillStatus r ids
       (if hasSection r i then Map_set i Loaded status
        else if Map_has (loadPromises r) i then Map_set i Loading status
        else Map_set i NotLoaded status)"

definition getLoadStatus :: "SectionRegistryManager \<Rightarrow> (SectionId \<times> LoadStatus) list" where
  "getLoadStatus r = fillStatus r allSectionIds []"


section \<open>The hero section's configuration (sections/hero/section.config.ts)\<close>

definition heroSectionConfig :: SectionConfig where
  "heroSectionConfig =
     \<lparr>id_cfg = ''hero'',
      name = ''Hero Section'',
      version = ''1.0.0'',
      enabled = True,
      dependencies = [''ethereal-depth''],
      props = [(''title'', ''string''), (''subtitle'', ''string''), (''description'', ''string''),
               (''features'', ''Feature[]''), (''dynamicWords'', ''string[]'')],
      order = 1,
      component_cfg = None\<rparr>"

section \<open>Validation of section properties (core/utils/section-helpers.ts)\<close>

text \<open>\<open>s.includes(sub)\<close> and \<open>s.endsWith(suffix)\<close>.\<close>

fun String_includes :: "string \<Rightarrow> string \<Rightarrow> bool" where
  "String_includes [] sub = (sub = [])"
| "String_includes (c # cs) sub = (take (length sub) (c # cs) = sub \<or> String_includes cs sub)"

definition String_endsWith :: "string \<Rightarrow> string \<Rightarrow> bool" where
  "String_endsWith s suffix =
     (length suffix \<le> length s \<and> drop (length s - length suffix) s = suffix)"

datatype js_error = TypeError string

text \<open>
  The first \<open>forEach\<close>: every key of the schema must be \<open>in\<close> the properties. The
  tag is not looked at.
\<close>

fun checkRequired ::
  "(string \<times> jsvalue) list \<Rightarrow> (string \<times> string) list \<Rightarrow> string list \<Rightarrow> string list" where
  "checkRequired ps [] errs = errs"
| "checkRequired ps ((propName, propType) # rest) errs =
     checkRequired ps rest
       (if \<not> js_in propName ps
        then errs @ [''Missing required prop: '' @ propName @ '' ('' @ propType @ '')'']
        else errs)"

text \<open>
  The second \<open>forEach\<close>, over the own properties. \<open>propName in config.props\<close> also
  holds for a name inherited from \<open>Object.prototype\<close>; the tag read is then a function
  or an object, not a string, and the call of its \<open>includes\<close> raises a TypeError that
  nothing catches.
\<close>

fun checkTypes ::
  "(string \<times> string) list \<Rightarrow> (string \<times> jsvalue) list \<Rightarrow> string list \<Rightarrow>
   js_error + string list" where
  "checkTypes schema [] errs = Inr errs"
| "checkTypes schema ((propName, propValue) # rest) errs =
     (if js_in propName schema then
        (case js_get JSString schema propName of
           JSString expectedType \<Rightarrow>
             (let actualType = (if isArray propValue then ''array'' else typeof propValue) in
              if String_includes expectedType ''[]'' \<and> \<not> isArray propValue then
                checkTypes schema rest
                  (errs @ [''Prop '' @ propName @ '' should be an array, got '' @ actualType])
              else if \<not> String_includes expectedType ''[]'' \<and> expectedType \<noteq> actualType
                      \<and> actualType \<noteq> ''undefined'' then
                (if \<not> (String_endsWith expectedType ''?'' \<and> actualType = ''undefined'') then
                   checkTypes schema rest
                     (errs @ [''Prop '' @ propName @ '' should be '' @ expectedType @
                              '', got '' @ actualType])
                 else checkTypes schema rest errs)
              else checkTypes schema rest errs)
         | _ \<Rightarrow> Inl (TypeError ''expectedType.includes is not a function''))
      else checkTypes schema rest errs)"

definition validateSectionProps ::
  "(string \<times> jsvalue) list \<Rightarrow> SectionConfig \<Rightarrow> js_error + validation" where
  "validateSectionProps ps cfg =
     (case checkTypes (props cfg) ps (checkRequired ps (props cfg) []) of
        Inl e \<Rightarrow> Inl e
      | Inr errs \<Rightarrow> Inr \<lparr>valid = (length errs = 0), errors = errs\<rparr>)"


section \<open>Asynchronous loading (\<open>loadSection\<close> and \<open>dynamicImport\<close>)\<close>

text \<open>
  JavaScript runs one job at a time. An \<open>async\<close> function runs without interruption up
  to its first \<open>await\<close> (or its \<open>return\<close>) and, once the awaited promise has settled,
  from there to its end in a later job. The model therefore has four kinds of events:
  some code calls \<open>loadSection\<close>; some code calls the public \<open>register\<close>; the
  \<open>import()\<close> behind a promise of \<open>dynamicImport\<close> settles; the continuation of a
  suspended call runs. Any code may run between two events, so the events come in any
  order.
\<close>

datatype 'a promise_state = Pending | Fulfilled 'a | Rejected string

text \<open>The two exports of the hero module that \<open>dynamicImport\<close> reads.\<close>

record hero_module =
  export_heroSectionConfig :: SectionConfig
  export_default :: component

datatype log_line = Warn string | ErrorLine string string

text \<open>
  One call of \<open>loadSection\<close>: its argument; the promise of \<open>dynamicImport\<close> it waits
  for, if any; whether it created that promise (line 92) and so runs lines 96 to 104 when
  the promise settles, or found it in \<open>loadPromises\<close> and returned it (line 88); and the
  state of the promise that the call itself returned to its caller (\<open>null\<close> is
  \<open>None\<close>).
\<close>

record load_call =
  arg :: SectionId
  awaits :: "promise_ref option"
  owner :: bool
  outcome :: "SectionRegistryEntry option promise_state"

text \<open>
  The store: the registry object, the promises that \<open>dynamicImport\<close> has returned so far
  (each with the identifier it was called with; a \<open>promise_ref\<close> is a position in this
  list), the calls of \<open>loadSection\<close> so far, and the console.
\<close>

record runtime =
  registry :: SectionRegistryManager
  promises :: "(SectionId \<times> SectionRegistryEntry promise_state) list"
  calls :: "load_call list"
  console :: "log_line list"

definition initial :: runtime where
  "initial = \<lparr>registry = \<lparr>sections = [], loadPromises = []\<rparr>, promises = [], calls = [],
     console = []\<rparr>"

text \<open>
  \<open>dynamicImport\<close>, up to its first suspension: for \<open>'hero'\<close> it waits for the
  \<open>import()\<close>, for any other identifier it throws, which rejects the promise it returns.
\<close>

definition dynamicImport :: "SectionId \<Rightarrow> SectionRegistryEntry promise_state" where
  "dynamicImport i =
     (if i = ''hero'' then Pending
      else Rejected (''Section '' @ i @ '' is not available for import''))"

text \<open>\<open>dynamicImport\<close>, after the \<open>import()\<close> of the hero module has settled.\<close>

definition dynamicImport_settled :: "string + hero_module \<Rightarrow> SectionRegistryEntry promise_state" where
  "dynamicImport_settled result =
     (case result of
        Inl err \<Rightarrow> Rejected err
      | Inr heroModule \<Rightarrow>
          Fulfilled \<lparr>config = export_heroSectionConfig heroModule,
                     component = export_default heroModule\<rparr>)"

definition promise_state_of :: "runtime \<Rightarrow> promise_ref \<Rightarrow> SectionRegistryEntry promise_state" where
  "promise_state_of s p = (if p < length (promises s) then snd (promises s ! p) else Pending)"

text \<open>\<open>loadSection\<close>, lines 72 to 93: from the call to the first \<open>return\<close> or \<open>await\<close>.\<close>

definition loadSection :: "SectionId \<Rightarrow> runtime \<Rightarrow> runtime" where
  "loadSection i s =
     (if i \<notin> set AVAILABLE_SECTIONS then
        s\<lparr>calls := calls s @ [\<lparr>arg = i, awaits = None, owner = False, outcome = Fulfilled None\<rparr>],
          console := console s @ [Warn (''Section '' @ i @ '' is not implemented yet'')]\<rparr>
      else
        (case getSection (registry s) i of
           Some existing \<Rightarrow>
             s\<lparr>calls := calls s @
                  [\<lparr>arg = i, awaits = None, owner = False, outcome = Fulfilled (Some existing)\<rparr>]\<rparr>
         | None \<Rightarrow>
             (case Map_get (loadPromises (registry s)) i of
                Some loadPromise \<Rightarrow>
                  s\<lparr>calls := calls s @
                       [\<lparr>arg = i, awaits = Some loadPromise, owner = False, outcome = Pending\<rparr>]\<rparr>
              | None \<Rightarrow>
                  (let promise = length (promises s) in
                   s\<lparr>registry := (registry s)
                        \<lparr>loadPromises := Map_set i promise (loadPromises (registry s))\<rparr>,
                     promises := promises s @ [(i, dynamicImport i)],
                     calls := calls s @
                       [\<lparr>arg = i, awaits = Some promise, owner = True, outcome = Pending\<rparr>]\<rparr>))))"

text \<open>
  The continuation of call \<open>c\<close>. The call that created the promise goes through lines
  96 to 104: on fulfilment \<open>register\<close> and \<open>return entry\<close>, on rejection
  \<open>console.error\<close> and \<open>return null\<close>, and \<open>loadPromises.delete(id)\<close> in both cases.
  A call that returned the promise it found (line 88) settles exactly as that promise does.
  While the promise is pending nothing happens.
\<close>

definition loadSection_resume :: "nat \<Rightarrow> runtime \<Rightarrow> runtime" where
  "loadSection_resume c s =
     (let k = calls s ! c in
      case awaits k of
        None \<Rightarrow> s
      | Some promise \<Rightarrow>
          if outcome k \<noteq> Pending then s
          else
            (case promise_state_of s promise of
               Pending \<Rightarrow> s
             | Fulfilled entry \<Rightarrow>
                 if owner k then
                   s\<lparr>registry := (register (arg k) entry (registry s))
                        \<lparr>loadPromises := Map_delete (arg k) (loadPromises (registry s))\<rparr>,
                     calls := (calls s)[c := k\<lparr>outcome := Fulfilled (Some entry)\<rparr>]\<rparr>
                 else s\<lparr>calls := (calls s)[c := k\<lparr>outcome := Fulfilled (Some entry)\<rparr>]\<rparr>
             | Rejected err \<Rightarrow>
                 if owner k then
                   s\<lparr>registry := (registry s)
                        \<lparr>loadPromises := Map_delete (arg k) (loadPromises (registry s))\<rparr>,
                     calls := (calls s)[c := k\<lparr>outcome := Fulfilled None\<rparr>],
                     console := console s @ [ErrorLine (''Failed to load section: '' @ arg k) err]\<rparr>
                 else s\<lparr>calls := (calls s)[c := k\<lparr>outcome := Rejected err\<rparr>]\<rparr>))"

datatype event =
    Call SectionId
  | Register SectionId SectionRegistryEntry
  | ImportSettles promise_ref "string + hero_module"
  | Resume nat

text \<open>An event that names no pending promise or no existing call changes nothing.\<close>

fun step :: "event \<Rightarrow> runtime \<Rightarrow> runtime" where
  "step (Call i) s = loadSection i s"
| "step (Register i entry) s = s\<lparr>registry := register i entry (registry s)\<rparr>"
| "step (ImportSettles p result) s =
     (if p < length (promises s) \<and> snd (promises s ! p) = Pending
      then s\<lparr>promises := (promises s)[p := (fst (promises s ! p), dynamicImport_settled result)]\<rparr>
      else s)"
| "step (Resume c) s = (if c < length (calls s) then loadSection_resume c s else s)"

fun run :: "event list \<Rightarrow> runtime \<Rightarrow> runtime" where
  "run [] s = s"
| "run (ev # evs) s = run evs (step ev s)"


subsection \<open>What holds of every store that the events can produce\<close>

text \<open>
  Every entry of \<open>loadPromises\<close> belongs to an identifier of the allow-list, refers to
  a promise that exists, and has a call that created that promise and is still suspended.
\<close>

definition markers_ok :: "runtime \<Rightarrow> bool" where
  "markers_ok s \<longleftrightarrow>
     distinct (map fst (loadPromises (registry s))) \<and>
     (\<forall>i p. Map_get (loadPromises (registry s)) i = Some p \<longrightarrow>
        i \<in> set AVAILABLE_SECTIONS \<and> p < length (promises s) \<and>
        (\<exists>c < length (calls s). owner (calls s ! c) \<and> outcome (calls s ! c) = Pending \<and>
           arg (calls s ! c) = i \<and> awaits (calls s ! c) = Some p))"

text \<open>
  A suspended call that created its promise finds that promise in \<open>loadPromises\<close> under
  its identifier, and no other such call has the same identifier.
\<close>

definition owners_ok :: "runtime \<Rightarrow> bool" where
  "owners_ok s \<longleftrightarrow>
     (\<forall>c < length (calls s). owner (calls s ! c) \<and> outcome (calls s ! c) = Pending \<longrightarrow>
        awaits (calls s ! c) \<noteq> None \<and>
        Map_get (loadPromises (registry s)) (arg (calls s ! c)) = awaits (calls s ! c)) \<and>
     (\<forall>c < length (calls s). \<forall>c' < length (calls s).
        owner (calls s ! c) \<and> outcome (calls s ! c) = Pending \<and>
        owner (calls s ! c') \<and> outcome (calls s ! c') = Pending \<and>
        arg (calls s ! c) = arg (calls s ! c') \<longrightarrow> c = c')"

text \<open>
  How the result of a call may stand to the state of the promise it waits for: \<open>ow\<close> tells
  whether the call created the promise.
\<close>

fun settles :: "bool \<Rightarrow> 'a promise_state \<Rightarrow> 'a option promise_state \<Rightarrow> bool" where
  "settles ow ps Pending = True"
| "settles ow (Fulfilled e) (Fulfilled x) = (x = Some e)"
| "settles ow (Rejected err) (Fulfilled x) = (ow \<and> x = None)"
| "settles ow (Rejected err) (Rejected err') = (\<not> ow \<and> err' = err)"
| "settles ow ps out = False"

definition outcomes_ok :: "runtime \<Rightarrow> bool" where
  "outcomes_ok s \<longleftrightarrow>
     (\<forall>c < length (calls s). \<forall>p. awaits (calls s ! c) = Some p \<longrightarrow>
        p < length (promises s) \<and>
        settles (owner (calls s ! c)) (promise_state_of s p) (outcome (calls s ! c)))"

text \<open>
  The calls that ran \<open>dynamicImport\<close> are, in the order of the calls, the creators of the
  promises \<open>0, 1, 2, \<dots>\<close>: one execution of \<open>dynamicImport\<close> for each promise.
\<close>

definition fetches_ok :: "runtime \<Rightarrow> bool" where
  "fetches_ok s \<longleftrightarrow>
     map awaits (filter owner (calls s)) = map Some [0..<length (promises s)]"

definition coalesced :: "runtime \<Rightarrow> bool" where
  "coalesced s \<longleftrightarrow> markers_ok s \<and> owners_ok s \<and> outcomes_ok s \<and> fetches_ok s"

section \<open>Example data\<close>

text \<open>The hero module with the configuration of the repository and some component.\<close>

definition heroModule :: hero_module where
  "heroModule = \<lparr>export_heroSectionConfig = heroSectionConfig, export_default = 0\<rparr>"

definition heroEntry :: SectionRegistryEntry where
  "heroEntry = \<lparr>config = heroSectionConfig, component = 0\<rparr>"

text \<open>A second section, of the same order as the hero section.\<close>

definition featuresEntry :: SectionRegistryEntry where
  "featuresEntry =
     \<lparr>config = heroSectionConfig\<lparr>id_cfg := ''features'', name := ''Features Section'',
                                  dependencies := [''hero'']\<rparr>,
      component = 1\<rparr>"

text \<open>Development mode with both sections switched on by their variables.\<close>

definition devEnv :: process_env where
  "devEnv = [''NODE_ENV'' \<mapsto> ''development'', ''FEATURE_hero'' \<mapsto> ''true'',
             ''FEATURE_features'' \<mapsto> ''true'']"

text \<open>Production mode: no variable is set.\<close>

definition prodEnv :: process_env where
  "prodEnv = Map.empty"


section \<open>Ordering of the enabled sections\<close>

lemma sort_insert_byOrder:
  "sort_insert byOrder x ys = insort_key (\<lambda>e. order (config e)) x ys"
  by (induction ys) (simp_all add: byOrder_def)

lemma Array_sort_byOrder: "Array_sort byOrder xs = sort_key (\<lambda>e. order (config e)) xs"
  by (induction xs) (simp_all add: Array_sort_def sort_insert_byOrder)

lemma set_getEnabledSections:
  "set (getEnabledSections flags env r) =
     {e \<in> set (getAllSections r). truthy (isFeatureEnabled flags env (id_cfg (config e)))}"
  by (auto simp add: getEnabledSections_def Array_sort_byOrder)

text \<open>
  C10. \<open>getSectionsInOrder\<close> returns the same sequence as \<open>getEnabledSections\<close>, for
  every registry, flag table and environment: sorting the sorted list again by the same
  key changes nothing.
\<close>

theorem getSectionsInOrder_eq_getEnabledSections:
  "getSectionsInOrder flags env r = getEnabledSections flags env r"
  by (simp add: getSectionsInOrder_def getEnabledSections_def Array_sort_byOrder
      sort_key_id_if_sorted)

theorem getSectionsInOrder_eq_getEnabledSections_witness:
  "getSectionsInOrder FEATURE_FLAGS devEnv
     \<lparr>sections = [(''features'', featuresEntry), (''hero'', heroEntry)], loadPromises = []\<rparr> =
   [featuresEntry, heroEntry]"
  using getSectionsInOrder_eq_getEnabledSections [of FEATURE_FLAGS devEnv
      "\<lparr>sections = [(''features'', featuresEntry), (''hero'', heroEntry)], loadPromises = []\<rparr>"]
  by (simp add: getEnabledSections_def getAllSections_def Map_values_def Array_sort_def
      byOrder_def isFeatureEnabled_def devEnv_def featuresEntry_def heroEntry_def
      heroSectionConfig_def)

text \<open>
  C2, as amended. \<open>getEnabledSections\<close> returns exactly the registered entries whose own
  \<open>config.id\<close> passes \<open>isFeatureEnabled\<close>, sorted non-decreasing by \<open>order\<close>, and
  the entries of any one \<open>order\<close> stand in the order of \<open>getAllSections\<close>, which is the
  order of registration. The filter reads the \<open>config.id\<close> of the entry, not the key
  under which the entry is registered: that every entry returned has
  \<open>isSectionEnabled(config.id)\<close> true holds when the \<open>config.id\<close> of every registered
  entry is a registered identifier, as it is when every entry is registered under its own
  \<open>config.id\<close>.
\<close>

theorem getEnabledSections_filtered_sorted_stable:
  "set (getEnabledSections flags env r) =
      {e \<in> set (getAllSections r). truthy (isFeatureEnabled flags env (id_cfg (config e)))}
   \<and> ((\<forall>e \<in> set (getAllSections r). hasSection r (id_cfg (config e))) \<longrightarrow>
        (\<forall>e \<in> set (getEnabledSections flags env r).
           truthy (isSectionEnabled flags env r (id_cfg (config e)))))
   \<and> sorted (map (\<lambda>e. order (config e)) (getEnabledSections flags env r))
   \<and> (\<forall>n. filter (\<lambda>e. order (config e) = n) (getEnabledSections flags env r) =
            filter (\<lambda>e. order (config e) = n)
              (filter (\<lambda>e. truthy (isFeatureEnabled flags env (id_cfg (config e))))
                 (getAllSections r)))"
proof (intro conjI impI ballI allI)
  show "set (getEnabledSections flags env r) =
      {e \<in> set (getAllSections r). truthy (isFeatureEnabled flags env (id_cfg (config e)))}"
    by (rule set_getEnabledSections)
next
  fix e
  assume known: "\<forall>e \<in> set (getAllSections r). hasSection r (id_cfg (config e))"
    and "e \<in> set (getEnabledSections flags env r)"
  then have "e \<in> set (getAllSections r)"
    and on: "truthy (isFeatureEnabled flags env (id_cfg (config e)))"
    by (simp_all add: set_getEnabledSections)
  with known have "hasSection r (id_cfg (config e))" by simp
  with on show "truthy (isSectionEnabled flags env r (id_cfg (config e)))"
    by (simp add: isSectionEnabled_def)
next
  show "sorted (map (\<lambda>e. order (config e)) (getEnabledSections flags env r))"
    by (simp add: getEnabledSections_def Array_sort_byOrder)
next
  fix n
  show "filter (\<lambda>e. order (config e) = n) (getEnabledSections flags env r) =
        filter (\<lambda>e. order (config e) = n)
          (filter (\<lambda>e. truthy (isFeatureEnabled flags env (id_cfg (config e))))
             (getAllSections r))"
    unfolding getEnabledSections_def Array_sort_byOrder by (rule sort_key_stable)
qed

text \<open>
  At a registry with both example sections, each under its own identifier and both of order
  1, in development mode with both switched on: both are returned, in the order of their
  registration, and the hero section counts as enabled.
\<close>

theorem getEnabledSections_filtered_sorted_stable_witness:
  "getEnabledSections FEATURE_FLAGS devEnv
     \<lparr>sections = [(''features'', featuresEntry), (''hero'', heroEntry)], loadPromises = []\<rparr> =
     [featuresEntry, heroEntry]
   \<and> truthy (isSectionEnabled FEATURE_FLAGS devEnv
       \<lparr>sections = [(''features'', featuresEntry), (''hero'', heroEntry)], loadPromises = []\<rparr>
       ''hero'')"
proof -
  let ?r = "\<lparr>sections = [(''features'', featuresEntry), (''hero'', heroEntry)],
             loadPromises = []\<rparr>"
  have known: "\<forall>e \<in> set (getAllSections ?r). hasSection ?r (id_cfg (config e))"
    by (simp add: getAllSections_def Map_values_def hasSection_def Map_has_def
        featuresEntry_def heroEntry_def heroSectionConfig_def)
  have val: "getEnabledSections FEATURE_FLAGS devEnv ?r = [featuresEntry, heroEntry]"
    by (simp add: getEnabledSections_def getAllSections_def Map_values_def Array_sort_def
        byOrder_def isFeatureEnabled_def devEnv_def featuresEntry_def heroEntry_def
        heroSectionConfig_def)
  have hero: "id_cfg (config heroEntry) = ''hero''"
    by (simp add: heroEntry_def heroSectionConfig_def)
  from getEnabledSections_filtered_sorted_stable [of FEATURE_FLAGS devEnv ?r] known
  have "\<forall>e \<in> set (getEnabledSections FEATURE_FLAGS devEnv ?r).
          truthy (isSectionEnabled FEATURE_FLAGS devEnv ?r (id_cfg (config e)))"
    by blast
  with val hero show ?thesis by simp
qed

text \<open>
  The claim as stated fails at a registry whose only entry is the hero entry registered
  under \<open>'features'\<close>, in development mode with \<open>FEATURE_hero\<close> set to \<open>'true'\<close>:
  the entry is returned although \<open>isSectionEnabled('hero')\<close> is false.
\<close>

theorem getEnabledSections_counterexample:
  "getEnabledSections FEATURE_FLAGS devEnv
     \<lparr>sections = [(''features'', heroEntry)], loadPromises = []\<rparr> = [heroEntry]
   \<and> id_cfg (config heroEntry) = ''hero''
   \<and> isSectionEnabled FEATURE_FLAGS devEnv
       \<lparr>sections = [(''features'', heroEntry)], loadPromises = []\<rparr> ''hero'' = JSBoolean False"
  by (simp add: getEnabledSections_def getAllSections_def Map_values_def Array_sort_def
      isFeatureEnabled_def devEnv_def heroEntry_def heroSectionConfig_def
      isSectionEnabled_def hasSection_def Map_has_def)

section \<open>Feature flags\<close>

text \<open>
  C3, as amended. In development mode with the variable \<open>FEATURE_f\<close> set, the result is
  the boolean that tells whether the variable is the string \<open>'true'\<close>, whatever the table
  says; in development mode without that variable, and outside development mode whatever
  the variables are, the result is the property read \<open>FEATURE_FLAGS[f]\<close>. That read is
  the table's boolean when \<open>f\<close> is a key of the table, and \<open>undefined\<close> (not the boolean
  \<open>false\<close>) when \<open>f\<close> is neither a key of the table nor the name of a member of
  \<open>Object.prototype\<close>.
\<close>

theorem isFeatureEnabled_override_and_table:
  "(env ''NODE_ENV'' = Some ''development'' \<and> env (''FEATURE_'' @ f) = Some v \<longrightarrow>
      isFeatureEnabled flags env f = JSBoolean (v = ''true''))
   \<and> (env ''NODE_ENV'' = Some ''development'' \<and> env (''FEATURE_'' @ f) = None \<longrightarrow>
      isFeatureEnabled flags env f = js_get JSBoolean flags f)
   \<and> (env ''NODE_ENV'' \<noteq> Some ''development'' \<longrightarrow>
      isFeatureEnabled flags env f = js_get JSBoolean flags f)
   \<and> (map_of flags f = Some b \<longrightarrow> js_get JSBoolean flags f = JSBoolean b)
   \<and> (map_of flags f = None \<and> f \<notin> set object_prototype_keys \<longrightarrow>
      js_get JSBoolean flags f = JSUndefined \<and> \<not> truthy (js_get JSBoolean flags f))"
  by (simp add: isFeatureEnabled_def js_get_def inherited_value_def object_prototype_keys_def)

text \<open>
  The override wins over the table: \<open>HERO_SECTION\<close> is true in the table and switched off
  by its variable. Without the variable the table decides.
\<close>

theorem isFeatureEnabled_override_and_table_witness:
  "isFeatureEnabled FEATURE_FLAGS
     [''NODE_ENV'' \<mapsto> ''development'', ''FEATURE_HERO_SECTION'' \<mapsto> ''false''] ''HERO_SECTION'' =
     JSBoolean False
   \<and> isFeatureEnabled FEATURE_FLAGS
     [''NODE_ENV'' \<mapsto> ''production'', ''FEATURE_HERO_SECTION'' \<mapsto> ''false''] ''HERO_SECTION'' =
     JSBoolean True"
  using isFeatureEnabled_override_and_table [of
      "[''NODE_ENV'' \<mapsto> ''development'', ''FEATURE_HERO_SECTION'' \<mapsto> ''false'']"
      "''HERO_SECTION''" "''false''" FEATURE_FLAGS True]
    isFeatureEnabled_override_and_table [of
      "[''NODE_ENV'' \<mapsto> ''production'', ''FEATURE_HERO_SECTION'' \<mapsto> ''false'']"
      "''HERO_SECTION''" "''false''" FEATURE_FLAGS True]
  by (simp add: FEATURE_FLAGS_def)

text \<open>
  The claim as stated fails at the identifier \<open>'hero'\<close>, which is not a key of the table:
  outside development mode the result is \<open>undefined\<close>, not the boolean \<open>false\<close>.
\<close>

theorem isFeatureEnabled_absent_counterexample:
  "isFeatureEnabled FEATURE_FLAGS prodEnv ''hero'' = JSUndefined
   \<and> isFeatureEnabled FEATURE_FLAGS prodEnv ''hero'' \<noteq> JSBoolean False"
  by (simp add: isFeatureEnabled_def js_get_def inherited_value_def object_prototype_keys_def
      FEATURE_FLAGS_def prodEnv_def)

section \<open>Section identifiers are not flag names\<close>

lemma section_ids_not_flags:
  "i \<in> set allSectionIds \<Longrightarrow> i \<notin> set (map fst FEATURE_FLAGS) \<and> i \<notin> set object_prototype_keys"
  by (auto simp add: allSectionIds_def FEATURE_FLAGS_def object_prototype_keys_def)

lemma section_id_flag_undefined:
  assumes "env ''NODE_ENV'' \<noteq> Some ''development''"
    and "map fst flags = map fst FEATURE_FLAGS"
    and "i \<in> set allSectionIds"
  shows "isFeatureEnabled flags env i = JSUndefined"
proof -
  from assms(2,3) have "i \<notin> set (map fst flags)" and "i \<notin> set object_prototype_keys"
    using section_ids_not_flags [of i] by simp_all
  then have "map_of flags i = None" and "inherited_value i = JSUndefined"
    by (simp_all add: map_of_eq_None_iff inherited_value_def object_prototype_keys_def)
  with assms(1) show ?thesis by (simp add: isFeatureEnabled_def js_get_def)
qed

text \<open>
  C9, as amended. Outside development mode, with a flag table that has the keys of \<open>FEATURE_FLAGS\<close>
  (whatever their values, so also with \<open>HERO_SECTION\<close> true): for each of the five
  section identifiers \<open>isSectionEnabled\<close> is not \<open>true\<close>, indeed not truthy, and it is
  \<open>undefined\<close> when the identifier is registered; \<open>getEnabledSections\<close> returns no
  entry whose \<open>config.id\<close> is a section identifier, hence the empty sequence when every
  registered entry carries a section identifier.
\<close>

theorem section_id_is_no_flag_key:
  assumes prod: "env ''NODE_ENV'' \<noteq> Some ''development''"
    and keys: "map fst flags = map fst FEATURE_FLAGS"
  shows "(\<forall>i \<in> set allSectionIds.
            isSectionEnabled flags env r i \<noteq> JSBoolean True
            \<and> \<not> truthy (isSectionEnabled flags env r i)
            \<and> (hasSection r i \<longrightarrow> isSectionEnabled flags env r i = JSUndefined))
       \<and> (\<forall>e \<in> set (getEnabledSections flags env r). id_cfg (config e) \<notin> set allSectionIds)
       \<and> ((\<forall>e \<in> set (getAllSections r). id_cfg (config e) \<in> set allSectionIds) \<longrightarrow>
            getEnabledSections flags env r = [])"
proof (intro conjI ballI impI)
  fix i assume i: "i \<in> set allSectionIds"
  have u: "isFeatureEnabled flags env i = JSUndefined"
    using prod keys i by (rule section_id_flag_undefined)
  show "isSectionEnabled flags env r i \<noteq> JSBoolean True"
    by (simp add: isSectionEnabled_def u)
  show "\<not> truthy (isSectionEnabled flags env r i)"
    by (simp add: isSectionEnabled_def u)
  show "isSectionEnabled flags env r i = JSUndefined" if "hasSection r i"
    using that by (simp add: isSectionEnabled_def u)
next
  fix e assume "e \<in> set (getEnabledSections flags env r)"
  then have on: "truthy (isFeatureEnabled flags env (id_cfg (config e)))"
    by (simp add: set_getEnabledSections)
  show "id_cfg (config e) \<notin> set allSectionIds"
  proof
    assume "id_cfg (config e) \<in> set allSectionIds"
    with prod keys have "isFeatureEnabled flags env (id_cfg (config e)) = JSUndefined"
      by (rule section_id_flag_undefined)
    with on show False by simp
  qed
next
  assume all: "\<forall>e \<in> set (getAllSections r). id_cfg (config e) \<in> set allSectionIds"
  have "filter (\<lambda>entry. truthy (isFeatureEnabled flags env (id_cfg (config entry))))
          (getAllSections r) = []"
    using all prod keys by (simp add: filter_empty_conv section_id_flag_undefined)
  then show "getEnabledSections flags env r = []"
    by (simp add: getEnabledSections_def Array_sort_def)
qed

text \<open>
  With the table of the repository and the hero section registered under \<open>'hero'\<close>:
  the section is not enabled and nothing is returned.
\<close>

theorem section_id_is_no_flag_key_witness:
  "isSectionEnabled FEATURE_FLAGS prodEnv
     \<lparr>sections = [(''hero'', heroEntry)], loadPromises = []\<rparr> ''hero'' = JSUndefined
   \<and> getEnabledSections FEATURE_FLAGS prodEnv
     \<lparr>sections = [(''hero'', heroEntry)], loadPromises = []\<rparr> = []"
proof -
  let ?r = "\<lparr>sections = [(''hero'', heroEntry)], loadPromises = []\<rparr>"
  have prod: "prodEnv ''NODE_ENV'' \<noteq> Some ''development''" by (simp add: prodEnv_def)
  have hero: "''hero'' \<in> set allSectionIds" by (simp add: allSectionIds_def)
  have has: "hasSection ?r ''hero''" by (simp add: hasSection_def Map_has_def)
  have ids: "\<forall>e \<in> set (getAllSections ?r). id_cfg (config e) \<in> set allSectionIds"
    by (simp add: getAllSections_def Map_values_def heroEntry_def heroSectionConfig_def
        allSectionIds_def)
  from section_id_is_no_flag_key [where flags = FEATURE_FLAGS and env = prodEnv and r = ?r,
      OF prod refl] hero has ids
  show ?thesis by blast
qed

text \<open>
  The claim as stated fails at a registry whose entry carries a flag name as its
  \<open>config.id\<close>: with the hero entry of \<open>config.id\<close> \<open>'HERO_SECTION'\<close> registered under
  \<open>'hero'\<close>, \<open>getEnabledSections\<close> returns that entry outside development mode.
\<close>

theorem section_id_is_no_flag_key_counterexample:
  "getEnabledSections FEATURE_FLAGS prodEnv
     \<lparr>sections = [(''hero'', heroEntry\<lparr>config := heroSectionConfig\<lparr>id_cfg := ''HERO_SECTION''\<rparr>\<rparr>)],
      loadPromises = []\<rparr> =
     [heroEntry\<lparr>config := heroSectionConfig\<lparr>id_cfg := ''HERO_SECTION''\<rparr>\<rparr>]
   \<and> prodEnv ''NODE_ENV'' \<noteq> Some ''development''"
  by (simp add: getEnabledSections_def getAllSections_def Map_values_def Array_sort_def
      isFeatureEnabled_def js_get_def FEATURE_FLAGS_def prodEnv_def heroEntry_def
      heroSectionConfig_def)

section \<open>Dependency validation\<close>

lemma checkDependencies_eq:
  "checkDependencies r entry deps errs =
     errs @ map (dependencyError entry) (filter (\<lambda>dep. \<not> hasSection r dep) deps)"
  by (induction deps arbitrary: errs) simp_all

lemma checkSections_eq:
  "checkSections r entries errs =
     errs @ concat (map (\<lambda>entry. map (dependencyError entry)
        (filter (\<lambda>dep. \<not> hasSection r dep) (dependencies (config entry)))) entries)"
  by (induction entries arbitrary: errs) (simp_all add: checkDependencies_eq)

text \<open>
  C4. The errors of \<open>validateDependencies\<close> are, for the enabled entries in their order
  and for each of them the dependencies that are not registered in their order, one
  message each, which quotes the \<open>config.id\<close> of the entry and the missing dependency;
  \<open>valid\<close> tells whether there is no error, and that is the case exactly when every
  dependency of every enabled entry is registered. Only \<open>hasSection\<close> is asked of a
  dependency, never whether it is enabled.
\<close>

theorem validateDependencies_reports_missing:
  "errors (validateDependencies flags env r) =
     concat (map (\<lambda>entry. map (dependencyError entry)
        (filter (\<lambda>dep. \<not> hasSection r dep) (dependencies (config entry))))
        (getEnabledSections flags env r))
   \<and> (valid (validateDependencies flags env r) \<longleftrightarrow>
        errors (validateDependencies flags env r) = [])
   \<and> (valid (validateDependencies flags env r) \<longleftrightarrow>
        (\<forall>entry \<in> set (getEnabledSections flags env r).
           \<forall>dep \<in> set (dependencies (config entry)). hasSection r dep))
   \<and> dependencyError entry dep =
        ''Section '' @ [CHR 0x22] @ id_cfg (config entry) @ [CHR 0x22] @
        '' requires missing dependency: '' @ [CHR 0x22] @ dep @ [CHR 0x22]"
  by (auto simp add: validateDependencies_def Let_def checkSections_eq filter_empty_conv
      dependencyError_def)

text \<open>
  In development mode with both example sections registered, the features section finds
  its dependency \<open>'hero'\<close>, which need not be enabled to count, and the hero section
  misses \<open>'ethereal-depth'\<close>.
\<close>

theorem validateDependencies_reports_missing_witness:
  "errors (validateDependencies FEATURE_FLAGS devEnv
     \<lparr>sections = [(''features'', featuresEntry), (''hero'', heroEntry)], loadPromises = []\<rparr>) =
     [''Section '' @ [CHR 0x22] @ ''hero'' @ [CHR 0x22] @ '' requires missing dependency: '' @
      [CHR 0x22] @ ''ethereal-depth'' @ [CHR 0x22]]
   \<and> \<not> valid (validateDependencies FEATURE_FLAGS devEnv
     \<lparr>sections = [(''features'', featuresEntry), (''hero'', heroEntry)], loadPromises = []\<rparr>)
   \<and> valid (validateDependencies FEATURE_FLAGS
     [''NODE_ENV'' \<mapsto> ''development'', ''FEATURE_features'' \<mapsto> ''true'']
     \<lparr>sections = [(''features'', featuresEntry), (''hero'', heroEntry)], loadPromises = []\<rparr>)"
proof -
  let ?r = "\<lparr>sections = [(''features'', featuresEntry), (''hero'', heroEntry)],
             loadPromises = []\<rparr>"
  let ?env = "[''NODE_ENV'' \<mapsto> ''development'', ''FEATURE_features'' \<mapsto> ''true'']"
  have both: "getEnabledSections FEATURE_FLAGS devEnv ?r = [featuresEntry, heroEntry]"
    by (simp add: getEnabledSections_def getAllSections_def Map_values_def Array_sort_def
        byOrder_def isFeatureEnabled_def devEnv_def featuresEntry_def heroEntry_def
        heroSectionConfig_def)
  have one: "getEnabledSections FEATURE_FLAGS ?env ?r = [featuresEntry]"
    by (simp add: getEnabledSections_def getAllSections_def Map_values_def Array_sort_def
        isFeatureEnabled_def js_get_def inherited_value_def object_prototype_keys_def
        FEATURE_FLAGS_def featuresEntry_def heroEntry_def heroSectionConfig_def)
  have deps: "dependencies (config featuresEntry) = [''hero'']"
    "dependencies (config heroEntry) = [''ethereal-depth'']"
    "id_cfg (config heroEntry) = ''hero''"
    by (simp_all add: featuresEntry_def heroEntry_def heroSectionConfig_def)
  have has: "hasSection ?r ''hero''" "\<not> hasSection ?r ''ethereal-depth''"
    by (simp_all add: hasSection_def Map_has_def)
  from validateDependencies_reports_missing [of FEATURE_FLAGS devEnv ?r heroEntry "''ethereal-depth''"]
    validateDependencies_reports_missing [of FEATURE_FLAGS ?env ?r heroEntry "''ethereal-depth''"]
  show ?thesis
    by (simp add: both one deps has)
qed

section \<open>Load status\<close>

lemma Map_set_fresh: "k \<notin> set (map fst m) \<Longrightarrow> Map_set k v m = m @ [(k, v)]"
  by (induction m) auto

lemma fillStatus_fresh:
  "distinct ids \<Longrightarrow> set ids \<inter> set (map fst status) = {} \<Longrightarrow>
   fillStatus r ids status =
     status @ map (\<lambda>i. (i, if hasSection r i then Loaded
                            else if Map_has (loadPromises r) i then Loading else NotLoaded)) ids"
proof (induction ids arbitrary: status)
  case Nil
  then show ?case by simp
next
  case (Cons i ids)
  from Cons.prems have fresh: "i \<notin> set (map fst status)" by auto
  let ?v = "if hasSection r i then Loaded
            else if Map_has (loadPromises r) i then Loading else NotLoaded"
  have unroll: "fillStatus r (i # ids) status = fillStatus r ids (Map_set i ?v status)"
    by simp
  have "set ids \<inter> set (map fst (Map_set i ?v status)) = {}"
    using Cons.prems fresh by (auto simp add: Map_set_fresh)
  moreover have "distinct ids" using Cons.prems by simp
  ultimately show ?case
    unfolding unroll using Cons.IH [of "Map_set i ?v status"] fresh
    by (simp add: Map_set_fresh)
qed

lemma map_of_tabulate:
  "map_of (map (\<lambda>i. (i, f i)) xs) i = (if i \<in> set xs then Some (f i) else None)"
  by (induction xs) auto

lemma getLoadStatus_eq:
  "getLoadStatus r =
     map (\<lambda>i. (i, if hasSection r i then Loaded
                  else if Map_has (loadPromises r) i then Loading else NotLoaded)) allSectionIds"
proof -
  have "distinct allSectionIds" by (simp add: allSectionIds_def)
  then show ?thesis
    unfolding getLoadStatus_def using fillStatus_fresh [of allSectionIds "[]" r] by simp
qed

text \<open>
  C7. The object that \<open>getLoadStatus\<close> returns has exactly the five known identifiers as
  its keys; each is mapped to \<open>'loaded'\<close> if it is registered, else to \<open>'loading'\<close> if
  \<open>loadPromises\<close> has it, else to \<open>'not-loaded'\<close>; and \<open>'error'\<close> is the value of no
  key, for every registry whatever.
\<close>

theorem getLoadStatus_derived:
  "map fst (getLoadStatus r) = allSectionIds
   \<and> allSectionIds = [''hero'', ''features'', ''pricing'', ''testimonials'', ''contact'']
   \<and> (\<forall>i \<in> set allSectionIds.
        map_of (getLoadStatus r) i =
          Some (if hasSection r i then Loaded
                else if Map_has (loadPromises r) i then Loading else NotLoaded))
   \<and> (\<forall>i. map_of (getLoadStatus r) i \<noteq> Some Error)
   \<and> Error \<notin> set (map snd (getLoadStatus r))"
proof -
  let ?f = "\<lambda>i. if hasSection r i then Loaded
                 else if Map_has (loadPromises r) i then Loading else NotLoaded"
  have eq: "getLoadStatus r = map (\<lambda>i. (i, ?f i)) allSectionIds"
    by (rule getLoadStatus_eq)
  have keys: "map fst (getLoadStatus r) = allSectionIds"
    unfolding eq by (simp add: comp_def)
  have look: "map_of (getLoadStatus r) i = (if i \<in> set allSectionIds then Some (?f i) else None)"
    for i
    unfolding eq by (rule map_of_tabulate)
  have noerr: "Error \<notin> set (map snd (getLoadStatus r))"
    unfolding eq by auto
  from keys look noerr show ?thesis by (auto simp add: allSectionIds_def split: if_splits)
qed

theorem getLoadStatus_derived_witness:
  "getLoadStatus \<lparr>sections = [(''features'', featuresEntry)], loadPromises = [(''hero'', 0)]\<rparr> =
     [(''hero'', Loading), (''features'', Loaded), (''pricing'', NotLoaded),
      (''testimonials'', NotLoaded), (''contact'', NotLoaded)]
   \<and> map_of (getLoadStatus
        \<lparr>sections = [(''features'', featuresEntry)], loadPromises = [(''hero'', 0)]\<rparr>) ''hero'' =
      Some Loading"
  using getLoadStatus_derived
    [of "\<lparr>sections = [(''features'', featuresEntry)], loadPromises = [(''hero'', 0)]\<rparr>"]
  by (simp add: getLoadStatus_def allSectionIds_def hasSection_def Map_has_def)

section \<open>Validation of section properties\<close>

text \<open>
  C8. The claim lets a key whose tag ends in \<open>?\<close> be absent, and takes a present value
  of the tagged type as a match. The code does neither. With the schema
  \<open>{subtitle: 'string?'}\<close>: for the properties \<open>{}\<close> the first loop reports the key
  as a missing required one, since it never looks at the tag; for the properties
  \<open>{subtitle: 'x'}\<close> the second loop compares the tag \<open>'string?'\<close> with the type
  \<open>'string'\<close> and reports a mismatch, the test for the \<open>?\<close> being reached only when
  the type is not \<open>'undefined'\<close> and asking that it is. Only a key that is present with
  the value \<open>undefined\<close> passes.
\<close>

theorem validateSectionProps_optional_marker:
  "validateSectionProps [] (heroSectionConfig\<lparr>props := [(''subtitle'', ''string?'')]\<rparr>) =
     Inr \<lparr>valid = False, errors = [''Missing required prop: subtitle (string?)'']\<rparr>
   \<and> validateSectionProps [(''subtitle'', JSString ''x'')]
       (heroSectionConfig\<lparr>props := [(''subtitle'', ''string?'')]\<rparr>) =
     Inr \<lparr>valid = False, errors = [''Prop subtitle should be string?, got string'']\<rparr>
   \<and> validateSectionProps [(''subtitle'', JSUndefined)]
       (heroSectionConfig\<lparr>props := [(''subtitle'', ''string?'')]\<rparr>) =
     Inr \<lparr>valid = True, errors = []\<rparr>"
  by (simp add: validateSectionProps_def js_in_def js_get_def object_prototype_keys_def
      String_endsWith_def)

section \<open>Asynchronous loading: what every reachable store satisfies\<close>

lemma Map_get_Map_set: "Map_get (Map_set k v m) k' = (if k' = k then Some v else Map_get m k')"
  by (induction m) (auto simp add: Map_get_def)

lemma Map_get_Map_delete: "Map_get (Map_delete k m) k' = (if k' = k then None else Map_get m k')"
  by (induction m) (auto simp add: Map_get_def Map_delete_def)

lemma Map_has_iff: "Map_has m k \<longleftrightarrow> Map_get m k \<noteq> None"
  by (simp add: Map_has_def Map_get_def map_of_eq_None_iff)

lemma keys_Map_set:
  "map fst (Map_set k v m) = (if k \<in> set (map fst m) then map fst m else map fst m @ [k])"
  by (induction m) (auto simp add: rev_image_eqI)

lemma distinct_Map_set: "distinct (map fst m) \<Longrightarrow> distinct (map fst (Map_set k v m))"
  by (simp add: keys_Map_set)

lemma distinct_Map_delete: "distinct (map fst m) \<Longrightarrow> distinct (map fst (Map_delete k m))"
  by (simp add: Map_delete_def distinct_map_filter)

lemma coalesced_initial: "coalesced initial"
  by (simp add: coalesced_def markers_ok_def owners_ok_def outcomes_ok_def fetches_ok_def
      initial_def Map_get_def)

lemma loadSection_cases [case_names NotAvailable Existing Joined Started]:
  obtains
    (NotAvailable) "i \<notin> set AVAILABLE_SECTIONS"
      "loadSection i s =
         s\<lparr>calls := calls s @ [\<lparr>arg = i, awaits = None, owner = False, outcome = Fulfilled None\<rparr>],
           console := console s @ [Warn (''Section '' @ i @ '' is not implemented yet'')]\<rparr>"
  | (Existing) existing where "i \<in> set AVAILABLE_SECTIONS"
      "getSection (registry s) i = Some existing"
      "loadSection i s =
         s\<lparr>calls := calls s @
           [\<lparr>arg = i, awaits = None, owner = False, outcome = Fulfilled (Some existing)\<rparr>]\<rparr>"
  | (Joined) loadPromise where "i \<in> set AVAILABLE_SECTIONS"
      "getSection (registry s) i = None"
      "Map_get (loadPromises (registry s)) i = Some loadPromise"
      "loadSection i s =
         s\<lparr>calls := calls s @
           [\<lparr>arg = i, awaits = Some loadPromise, owner = False, outcome = Pending\<rparr>]\<rparr>"
  | (Started) "i \<in> set AVAILABLE_SECTIONS"
      "getSection (registry s) i = None"
      "Map_get (loadPromises (registry s)) i = None"
      "loadSection i s =
         s\<lparr>registry := (registry s)
              \<lparr>loadPromises := Map_set i (length (promises s)) (loadPromises (registry s))\<rparr>,
           promises := promises s @ [(i, dynamicImport i)],
           calls := calls s @
             [\<lparr>arg = i, awaits = Some (length (promises s)), owner = True, outcome = Pending\<rparr>]\<rparr>"
  by (cases "i \<in> set AVAILABLE_SECTIONS"; cases "getSection (registry s) i";
      cases "Map_get (loadPromises (registry s)) i")
     (simp_all add: loadSection_def Let_def)

lemma promise_state_of_cong:
  "promises s' = promises s \<Longrightarrow> promise_state_of s' = promise_state_of s"
  by (rule ext) (simp add: promise_state_of_def)

lemma coalesced_follower:
  assumes inv: "coalesced s"
    and k: "\<not> owner k" "\<forall>p. awaits k = Some p \<longrightarrow> p < length (promises s) \<and> outcome k = Pending"
    and s': "registry s' = registry s" "promises s' = promises s" "calls s' = calls s @ [k]"
  shows "coalesced s'"
proof -
  from inv have m: "markers_ok s" and ow: "owners_ok s" and oc: "outcomes_ok s" and f: "fetches_ok s"
    by (simp_all add: coalesced_def)
  have "markers_ok s'"
    using m unfolding markers_ok_def s'
    by (auto simp add: nth_append)
  moreover have "owners_ok s'"
    using ow k(1) unfolding owners_ok_def s'
    by (auto simp add: nth_append less_Suc_eq)
  moreover have "outcomes_ok s'"
    using oc k(2) unfolding outcomes_ok_def s' promise_state_of_cong [OF s'(2)]
    by (auto simp add: nth_append less_Suc_eq)
  moreover have "fetches_ok s'"
    using f k(1) unfolding fetches_ok_def s' by simp
  ultimately show ?thesis by (simp add: coalesced_def)
qed


lemma promise_state_of_append:
  "promises s' = promises s @ ps \<Longrightarrow> p < length (promises s) \<Longrightarrow>
   promise_state_of s' p = promise_state_of s p"
  by (simp add: promise_state_of_def nth_append)

lemma coalesced_started:
  assumes inv: "coalesced s"
    and i: "i \<in> set AVAILABLE_SECTIONS" "getSection (registry s) i = None"
      "Map_get (loadPromises (registry s)) i = None"
    and s': "registry s' = (registry s)
               \<lparr>loadPromises := Map_set i (length (promises s)) (loadPromises (registry s))\<rparr>"
      "promises s' = promises s @ [(i, d)]"
      "calls s' = calls s @
         [\<lparr>arg = i, awaits = Some (length (promises s)), owner = True, outcome = Pending\<rparr>]"
  shows "coalesced s'"
proof -
  from inv have m: "markers_ok s" and ow: "owners_ok s" and oc: "outcomes_ok s" and f: "fetches_ok s"
    by (simp_all add: coalesced_def)
  have nopending: "arg (calls s ! c) \<noteq> i"
    if "c < length (calls s)" "owner (calls s ! c)" "outcome (calls s ! c) = Pending" for c
    using ow that i(3) unfolding owners_ok_def by force
  have "markers_ok s'"
    using m i(1) unfolding markers_ok_def s'
    by (auto simp add: nth_append Map_get_Map_set distinct_Map_set less_Suc_eq split: if_splits)
  moreover have "owners_ok s'"
    using ow nopending unfolding owners_ok_def s'
    by (auto simp add: nth_append Map_get_Map_set less_Suc_eq split: if_splits)
  moreover have "outcomes_ok s'"
    unfolding outcomes_ok_def
  proof (intro allI impI)
    fix c p
    assume c: "c < length (calls s')" and p: "awaits (calls s' ! c) = Some p"
    show "p < length (promises s') \<and>
          settles (owner (calls s' ! c)) (promise_state_of s' p) (outcome (calls s' ! c))"
    proof (cases "c < length (calls s)")
      case True
      with p have "awaits (calls s ! c) = Some p" by (simp add: s' nth_append)
      with oc True have "p < length (promises s)"
        and "settles (owner (calls s ! c)) (promise_state_of s p) (outcome (calls s ! c))"
        unfolding outcomes_ok_def by blast+
      with True show ?thesis
        by (simp add: s' nth_append promise_state_of_append [OF s'(2)])
    next
      case False
      with c have "c = length (calls s)" by (simp add: s')
      with p show ?thesis by (auto simp add: s' nth_append)
    qed
  qed
  moreover have "fetches_ok s'"
    using f unfolding fetches_ok_def s' by simp
  ultimately show ?thesis by (simp add: coalesced_def)
qed

lemma coalesced_loadSection: "coalesced s \<Longrightarrow> coalesced (loadSection i s)"
proof (cases i s rule: loadSection_cases)
  case NotAvailable
  assume "coalesced s"
  then show ?thesis by (rule coalesced_follower) (simp_all add: NotAvailable)
next
  case (Existing existing)
  assume "coalesced s"
  then show ?thesis by (rule coalesced_follower) (simp_all add: Existing)
next
  case (Joined loadPromise)
  assume inv: "coalesced s"
  then have "loadPromise < length (promises s)"
    using Joined(3) by (auto simp add: coalesced_def markers_ok_def)
  with inv show ?thesis by (rule_tac coalesced_follower) (simp_all add: Joined)
next
  case Started
  assume "coalesced s"
  then show ?thesis using Started(1-3) by (rule coalesced_started) (simp_all add: Started)
qed

lemma settles_Pending_promise: "settles ow Pending out \<Longrightarrow> out = Pending"
  by (cases out) simp_all

lemma coalesced_settle:
  assumes inv: "coalesced s"
    and p: "p < length (promises s)" "snd (promises s ! p) = Pending"
  shows "coalesced (s\<lparr>promises := (promises s)[p := (j, st)]\<rparr>)"
proof -
  let ?s' = "s\<lparr>promises := (promises s)[p := (j, st)]\<rparr>"
  from inv have m: "markers_ok s" and ow: "owners_ok s" and oc: "outcomes_ok s" and f: "fetches_ok s"
    by (simp_all add: coalesced_def)
  have pend: "promise_state_of s p = Pending"
    using p by (simp add: promise_state_of_def)
  have other: "promise_state_of ?s' q = promise_state_of s q" if "q \<noteq> p" for q
    using that by (simp add: promise_state_of_def)
  have "markers_ok ?s'"
    using m unfolding markers_ok_def by simp
  moreover have "owners_ok ?s'"
    using ow unfolding owners_ok_def by simp
  moreover have "outcomes_ok ?s'"
    unfolding outcomes_ok_def
  proof (intro allI impI)
    fix c q
    assume c: "c < length (calls ?s')" and q: "awaits (calls ?s' ! c) = Some q"
    with oc have old: "q < length (promises s)"
      "settles (owner (calls s ! c)) (promise_state_of s q) (outcome (calls s ! c))"
      unfolding outcomes_ok_def by auto
    show "q < length (promises ?s') \<and>
          settles (owner (calls ?s' ! c)) (promise_state_of ?s' q) (outcome (calls ?s' ! c))"
    proof (cases "q = p")
      case True
      with old(2) pend have "outcome (calls s ! c) = Pending"
        by (simp add: settles_Pending_promise)
      with old(1) show ?thesis by simp
    next
      case False
      with old show ?thesis by (simp add: other)
    qed
  qed
  moreover have "fetches_ok ?s'"
    using f unfolding fetches_ok_def by simp
  ultimately show ?thesis by (simp add: coalesced_def)
qed

lemma filter_map_list_update:
  "c < length xs \<Longrightarrow> P y = P (xs ! c) \<Longrightarrow> g y = g (xs ! c) \<Longrightarrow>
   map g (filter P (xs[c := y])) = map g (filter P xs)"
proof (induction xs arbitrary: c)
  case Nil
  then show ?case by simp
next
  case (Cons x xs)
  then show ?case by (cases c) auto
qed

lemma coalesced_resume_follower:
  assumes inv: "coalesced s"
    and c: "c < length (calls s)" "awaits (calls s ! c) = Some p" "outcome (calls s ! c) = Pending"
      "\<not> owner (calls s ! c)"
    and out: "settles False (promise_state_of s p) out"
  shows "coalesced (s\<lparr>calls := (calls s)[c := (calls s ! c)\<lparr>outcome := out\<rparr>]\<rparr>)"
proof -
  let ?s' = "s\<lparr>calls := (calls s)[c := (calls s ! c)\<lparr>outcome := out\<rparr>]\<rparr>"
  from inv have m: "markers_ok s" and ow: "owners_ok s" and oc: "outcomes_ok s" and f: "fetches_ok s"
    by (simp_all add: coalesced_def)
  have ps: "promise_state_of ?s' = promise_state_of s"
    by (rule promise_state_of_cong) simp
  have same: "x \<noteq> c \<and> calls ?s' ! x = calls s ! x"
    if "x < length (calls ?s')" "owner (calls ?s' ! x)" for x
    using that c(1,4) by (cases "x = c") simp_all
  have "markers_ok ?s'"
    unfolding markers_ok_def
  proof (intro conjI allI impI)
    show "distinct (map fst (loadPromises (registry ?s')))"
      using m by (simp add: markers_ok_def)
  next
    fix i q assume "Map_get (loadPromises (registry ?s')) i = Some q"
    then have mk: "Map_get (loadPromises (registry s)) i = Some q" by simp
    with m obtain c' where c': "c' < length (calls s)" "owner (calls s ! c')"
      "outcome (calls s ! c') = Pending" "arg (calls s ! c') = i" "awaits (calls s ! c') = Some q"
      and rest: "i \<in> set AVAILABLE_SECTIONS" "q < length (promises s)"
      unfolding markers_ok_def by blast
    from c' c(4) have "c' \<noteq> c" by auto
    with c' have "c' < length (calls ?s') \<and> owner (calls ?s' ! c') \<and>
      outcome (calls ?s' ! c') = Pending \<and> arg (calls ?s' ! c') = i \<and>
      awaits (calls ?s' ! c') = Some q" by simp
    then show "\<exists>c'<length (calls ?s'). owner (calls ?s' ! c') \<and>
      outcome (calls ?s' ! c') = Pending \<and> arg (calls ?s' ! c') = i \<and>
      awaits (calls ?s' ! c') = Some q" by blast
    from rest show "i \<in> set AVAILABLE_SECTIONS" "q < length (promises ?s')" by simp_all
  qed
  moreover have "owners_ok ?s'"
    unfolding owners_ok_def
  proof (intro conjI allI impI)
    fix x assume x: "x < length (calls ?s')"
      "owner (calls ?s' ! x) \<and> outcome (calls ?s' ! x) = Pending"
    with same [of x] have "calls ?s' ! x = calls s ! x" "x < length (calls s)" by simp_all
    with ow x(2) show "awaits (calls ?s' ! x) \<noteq> None"
      "Map_get (loadPromises (registry ?s')) (arg (calls ?s' ! x)) = awaits (calls ?s' ! x)"
      unfolding owners_ok_def by simp_all
  next
    fix x y assume xy: "x < length (calls ?s')" "y < length (calls ?s')"
      "owner (calls ?s' ! x) \<and> outcome (calls ?s' ! x) = Pending \<and>
       owner (calls ?s' ! y) \<and> outcome (calls ?s' ! y) = Pending \<and>
       arg (calls ?s' ! x) = arg (calls ?s' ! y)"
    with same [of x] same [of y]
    have "calls ?s' ! x = calls s ! x" "calls ?s' ! y = calls s ! y"
      "x < length (calls s)" "y < length (calls s)" by simp_all
    with ow xy(3) show "x = y" unfolding owners_ok_def by simp
  qed
  moreover have "outcomes_ok ?s'"
    unfolding outcomes_ok_def ps
  proof (intro allI impI)
    fix x q assume x: "x < length (calls ?s')" "awaits (calls ?s' ! x) = Some q"
    show "q < length (promises ?s') \<and>
      settles (owner (calls ?s' ! x)) (promise_state_of s q) (outcome (calls ?s' ! x))"
    proof (cases "x = c")
      case True
      with x c have "q = p" by simp
      moreover from oc c(1,2) have "p < length (promises s)" unfolding outcomes_ok_def by blast
      ultimately show ?thesis using True c out by simp
    next
      case False
      with x have "calls ?s' ! x = calls s ! x" "x < length (calls s)"
        "awaits (calls s ! x) = Some q" by simp_all
      with oc show ?thesis unfolding outcomes_ok_def by simp
    qed
  qed
  moreover have "fetches_ok ?s'"
    using f c unfolding fetches_ok_def by (simp add: filter_map_list_update)
  ultimately show ?thesis by (simp add: coalesced_def)
qed

lemma coalesced_resume_owner:
  assumes inv: "coalesced s"
    and c: "c < length (calls s)" "awaits (calls s ! c) = Some p" "outcome (calls s ! c) = Pending"
      "owner (calls s ! c)"
    and out: "out \<noteq> Pending" "settles True (promise_state_of s p) out"
    and s': "loadPromises (registry s') = Map_delete (arg (calls s ! c)) (loadPromises (registry s))"
      "promises s' = promises s"
      "calls s' = (calls s)[c := (calls s ! c)\<lparr>outcome := out\<rparr>]"
  shows "coalesced s'"
proof -
  from inv have m: "markers_ok s" and ow: "owners_ok s" and oc: "outcomes_ok s" and f: "fetches_ok s"
    by (simp_all add: coalesced_def)
  have ps: "promise_state_of s' = promise_state_of s"
    using s'(2) by (rule promise_state_of_cong)
  have len: "length (calls s') = length (calls s)" by (simp add: s')
  have at_c: "calls s' ! c = (calls s ! c)\<lparr>outcome := out\<rparr>"
    using c(1) by (simp add: s')
  have other: "calls s' ! x = calls s ! x" if "x \<noteq> c" for x
    using that by (simp add: s')
  have pending: "x \<noteq> c \<and> calls s' ! x = calls s ! x \<and> arg (calls s ! x) \<noteq> arg (calls s ! c)"
    if x: "x < length (calls s)" "owner (calls s' ! x)" "outcome (calls s' ! x) = Pending" for x
  proof -
    from x(3) out(1) at_c have ne: "x \<noteq> c" by auto
    with x other have old: "owner (calls s ! x)" "outcome (calls s ! x) = Pending" by simp_all
    have "arg (calls s ! x) \<noteq> arg (calls s ! c)"
    proof
      assume "arg (calls s ! x) = arg (calls s ! c)"
      with ow x(1) c old have "x = c" unfolding owners_ok_def by blast
      with ne show False by simp
    qed
    with ne other show ?thesis by simp
  qed
  have "markers_ok s'"
    unfolding markers_ok_def
  proof (intro conjI allI impI)
    show "distinct (map fst (loadPromises (registry s')))"
      using m by (simp add: markers_ok_def s' distinct_Map_delete)
  next
    fix i q assume "Map_get (loadPromises (registry s')) i = Some q"
    then have ne: "i \<noteq> arg (calls s ! c)" and mk: "Map_get (loadPromises (registry s)) i = Some q"
      by (simp_all add: s' Map_get_Map_delete split: if_splits)
    with m obtain c' where c': "c' < length (calls s)" "owner (calls s ! c')"
      "outcome (calls s ! c') = Pending" "arg (calls s ! c') = i" "awaits (calls s ! c') = Some q"
      and rest: "i \<in> set AVAILABLE_SECTIONS" "q < length (promises s)"
      unfolding markers_ok_def by blast
    from c' ne have "c' \<noteq> c" by auto
    with c' other have "c' < length (calls s') \<and> owner (calls s' ! c') \<and>
      outcome (calls s' ! c') = Pending \<and> arg (calls s' ! c') = i \<and>
      awaits (calls s' ! c') = Some q" by (simp add: len)
    then show "\<exists>c'<length (calls s'). owner (calls s' ! c') \<and>
      outcome (calls s' ! c') = Pending \<and> arg (calls s' ! c') = i \<and>
      awaits (calls s' ! c') = Some q" by blast
    from rest show "i \<in> set AVAILABLE_SECTIONS" "q < length (promises s')"
      by (simp_all add: s'(2))
  qed
  moreover have "owners_ok s'"
    unfolding owners_ok_def
  proof (intro conjI allI impI)
    fix x assume x: "x < length (calls s')"
      "owner (calls s' ! x) \<and> outcome (calls s' ! x) = Pending"
    with pending [of x] have eq: "calls s' ! x = calls s ! x" "x < length (calls s)"
      "arg (calls s ! x) \<noteq> arg (calls s ! c)" by (simp_all add: len)
    with ow x(2) show "awaits (calls s' ! x) \<noteq> None"
      "Map_get (loadPromises (registry s')) (arg (calls s' ! x)) = awaits (calls s' ! x)"
      unfolding owners_ok_def by (simp_all add: s'(1) Map_get_Map_delete)
  next
    fix x y assume xy: "x < length (calls s')" "y < length (calls s')"
      "owner (calls s' ! x) \<and> outcome (calls s' ! x) = Pending \<and>
       owner (calls s' ! y) \<and> outcome (calls s' ! y) = Pending \<and>
       arg (calls s' ! x) = arg (calls s' ! y)"
    with pending [of x] pending [of y]
    have "calls s' ! x = calls s ! x" "calls s' ! y = calls s ! y"
      "x < length (calls s)" "y < length (calls s)" by (simp_all add: len)
    with ow xy(3) show "x = y" unfolding owners_ok_def by simp
  qed
  moreover have "outcomes_ok s'"
    unfolding outcomes_ok_def ps
  proof (intro allI impI)
    fix x q assume x: "x < length (calls s')" "awaits (calls s' ! x) = Some q"
    show "q < length (promises s') \<and>
      settles (owner (calls s' ! x)) (promise_state_of s q) (outcome (calls s' ! x))"
    proof (cases "x = c")
      case True
      with x at_c c have "q = p" by simp
      moreover from oc c(1,2) have "p < length (promises s)" unfolding outcomes_ok_def by blast
      ultimately show ?thesis using True c out at_c by (simp add: s'(2))
    next
      case False
      with x other have "calls s' ! x = calls s ! x" "x < length (calls s)"
        "awaits (calls s ! x) = Some q" by (simp_all add: len)
      with oc show ?thesis unfolding outcomes_ok_def by (simp add: s'(2))
    qed
  qed
  moreover have "fetches_ok s'"
    using f c unfolding fetches_ok_def s' by (simp add: filter_map_list_update)
  ultimately show ?thesis by (simp add: coalesced_def)
qed

lemma loadSection_resume_cases
  [case_names Idle OwnerFulfilled OwnerRejected FollowerFulfilled FollowerRejected]:
  obtains
    (Idle) "loadSection_resume c s = s"
  | (OwnerFulfilled) p entry where
      "awaits (calls s ! c) = Some p" "outcome (calls s ! c) = Pending" "owner (calls s ! c)"
      "promise_state_of s p = Fulfilled entry"
      "loadSection_resume c s =
         s\<lparr>registry := (register (arg (calls s ! c)) entry (registry s))
              \<lparr>loadPromises := Map_delete (arg (calls s ! c)) (loadPromises (registry s))\<rparr>,
           calls := (calls s)[c := (calls s ! c)\<lparr>outcome := Fulfilled (Some entry)\<rparr>]\<rparr>"
  | (OwnerRejected) p err where
      "awaits (calls s ! c) = Some p" "outcome (calls s ! c) = Pending" "owner (calls s ! c)"
      "promise_state_of s p = Rejected err"
      "loadSection_resume c s =
         s\<lparr>registry := (registry s)
              \<lparr>loadPromises := Map_delete (arg (calls s ! c)) (loadPromises (registry s))\<rparr>,
           calls := (calls s)[c := (calls s ! c)\<lparr>outcome := Fulfilled None\<rparr>],
           console := console s @
             [ErrorLine (''Failed to load section: '' @ arg (calls s ! c)) err]\<rparr>"
  | (FollowerFulfilled) p entry where
      "awaits (calls s ! c) = Some p" "outcome (calls s ! c) = Pending" "\<not> owner (calls s ! c)"
      "promise_state_of s p = Fulfilled entry"
      "loadSection_resume c s =
         s\<lparr>calls := (calls s)[c := (calls s ! c)\<lparr>outcome := Fulfilled (Some entry)\<rparr>]\<rparr>"
  | (FollowerRejected) p err where
      "awaits (calls s ! c) = Some p" "outcome (calls s ! c) = Pending" "\<not> owner (calls s ! c)"
      "promise_state_of s p = Rejected err"
      "loadSection_resume c s =
         s\<lparr>calls := (calls s)[c := (calls s ! c)\<lparr>outcome := Rejected err\<rparr>]\<rparr>"
proof (cases "awaits (calls s ! c)")
  case None
  then have "loadSection_resume c s = s" by (simp add: loadSection_resume_def)
  then show ?thesis by (rule Idle)
next
  case (Some p)
  show ?thesis
  proof (cases "outcome (calls s ! c) = Pending")
    case False
    with Some have "loadSection_resume c s = s" by (simp add: loadSection_resume_def)
    then show ?thesis by (rule Idle)
  next
    case True
    show ?thesis
    proof (cases "promise_state_of s p")
      case Pending
      with Some True have "loadSection_resume c s = s" by (simp add: loadSection_resume_def)
      then show ?thesis by (rule Idle)
    next
      case (Fulfilled entry)
      show ?thesis
      proof (cases "owner (calls s ! c)")
        case True
        with Some \<open>outcome (calls s ! c) = Pending\<close> Fulfilled show ?thesis
          by (intro OwnerFulfilled [of p entry]) (simp_all add: loadSection_resume_def Let_def)
      next
        case False
        with Some \<open>outcome (calls s ! c) = Pending\<close> Fulfilled show ?thesis
          by (intro FollowerFulfilled [of p entry]) (simp_all add: loadSection_resume_def Let_def)
      qed
    next
      case (Rejected err)
      show ?thesis
      proof (cases "owner (calls s ! c)")
        case True
        with Some \<open>outcome (calls s ! c) = Pending\<close> Rejected show ?thesis
          by (intro OwnerRejected [of p err]) (simp_all add: loadSection_resume_def Let_def)
      next
        case False
        with Some \<open>outcome (calls s ! c) = Pending\<close> Rejected show ?thesis
          by (intro FollowerRejected [of p err]) (simp_all add: loadSection_resume_def Let_def)
      qed
    qed
  qed
qed

lemma coalesced_resume:
  assumes inv: "coalesced s" and c: "c < length (calls s)"
  shows "coalesced (loadSection_resume c s)"
proof (cases c s rule: loadSection_resume_cases)
  case Idle
  with inv show ?thesis by simp
next
  case (OwnerFulfilled p entry)
  from inv c OwnerFulfilled(1-3) show ?thesis
    by (rule coalesced_resume_owner [where out = "Fulfilled (Some entry)"])
       (simp_all add: OwnerFulfilled register_def)
next
  case (OwnerRejected p err)
  from inv c OwnerRejected(1-3) show ?thesis
    by (rule coalesced_resume_owner [where out = "Fulfilled None"])
       (simp_all add: OwnerRejected)
next
  case (FollowerFulfilled p entry)
  from inv c FollowerFulfilled(1-3) show ?thesis
    unfolding FollowerFulfilled(5)
    by (rule coalesced_resume_follower) (simp add: FollowerFulfilled)
next
  case (FollowerRejected p err)
  from inv c FollowerRejected(1-3) show ?thesis
    unfolding FollowerRejected(5)
    by (rule coalesced_resume_follower) (simp add: FollowerRejected)
qed

lemma coalesced_register:
  "coalesced s \<Longrightarrow> coalesced (s\<lparr>registry := register i entry (registry s)\<rparr>)"
proof -
  have "promise_state_of (s\<lparr>registry := register i entry (registry s)\<rparr>) = promise_state_of s"
    by (rule promise_state_of_cong) simp
  then show "coalesced s \<Longrightarrow> coalesced (s\<lparr>registry := register i entry (registry s)\<rparr>)"
    by (simp add: coalesced_def markers_ok_def owners_ok_def outcomes_ok_def fetches_ok_def
        register_def)
qed

lemma coalesced_step: "coalesced s \<Longrightarrow> coalesced (step ev s)"
proof (cases ev)
  case (Call i)
  assume "coalesced s"
  then show ?thesis by (simp add: Call coalesced_loadSection)
next
  case (Register i entry)
  assume "coalesced s"
  then show ?thesis by (simp add: Register coalesced_register)
next
  case (ImportSettles p result)
  assume "coalesced s"
  then show ?thesis by (simp add: ImportSettles coalesced_settle)
next
  case (Resume c)
  assume "coalesced s"
  then show ?thesis by (simp add: Resume coalesced_resume)
qed

lemma coalesced_run: "coalesced s \<Longrightarrow> coalesced (run evs s)"
  by (induction evs arbitrary: s) (simp_all add: coalesced_step)

section \<open>Asynchronous loading: calls and promises from one event to the next\<close>

lemma length_calls_step: "length (calls s) \<le> length (calls (step ev s))"
proof (cases ev)
  case (Call i)
  show ?thesis unfolding Call step.simps
    by (cases i s rule: loadSection_cases) simp_all
next
  case (Register i entry)
  then show ?thesis by simp
next
  case (ImportSettles p result)
  then show ?thesis by simp
next
  case (Resume c)
  show ?thesis unfolding Resume step.simps
    by (cases c s rule: loadSection_resume_cases) simp_all
qed

lemma call_unchanged_step:
  assumes c: "c < length (calls s)" and ev: "ev \<noteq> Resume c"
  shows "calls (step ev s) ! c = calls s ! c"
proof (cases ev)
  case (Call i)
  show ?thesis unfolding Call step.simps using c
    by (cases i s rule: loadSection_cases) (simp_all add: nth_append)
next
  case (Register i entry)
  then show ?thesis by simp
next
  case (ImportSettles p result)
  then show ?thesis by simp
next
  case (Resume c')
  with ev have ne: "c' \<noteq> c" by simp
  show ?thesis unfolding Resume step.simps using ne
    by (cases c' s rule: loadSection_resume_cases) simp_all
qed

lemma call_unchanged_run:
  "c < length (calls s) \<Longrightarrow> Resume c \<notin> set evs \<Longrightarrow>
   calls (run evs s) ! c = calls s ! c \<and> c < length (calls (run evs s))"
proof (induction evs arbitrary: s)
  case Nil
  then show ?case by simp
next
  case (Cons ev evs)
  from Cons.prems have ev: "ev \<noteq> Resume c" and rest: "Resume c \<notin> set evs" by auto
  from Cons.prems(1) have c': "c < length (calls (step ev s))"
    using length_calls_step [of s ev] by simp
  from Cons.IH [OF c' rest] call_unchanged_step [OF Cons.prems(1) ev]
  show ?case by simp
qed

lemma settled_call_step:
  assumes c: "c < length (calls s)" and fin: "outcome (calls s ! c) \<noteq> Pending"
  shows "calls (step ev s) ! c = calls s ! c"
proof (cases "ev = Resume c")
  case False
  with c show ?thesis by (rule call_unchanged_step)
next
  case True
  with c fin show ?thesis by (simp add: loadSection_resume_def Let_def split: option.splits)
qed

lemma settled_call_run:
  "c < length (calls s) \<Longrightarrow> outcome (calls s ! c) \<noteq> Pending \<Longrightarrow>
   calls (run evs s) ! c = calls s ! c"
proof (induction evs arbitrary: s)
  case Nil
  then show ?case by simp
next
  case (Cons ev evs)
  have eq: "calls (step ev s) ! c = calls s ! c"
    using Cons.prems by (rule settled_call_step)
  from Cons.prems(1) have c': "c < length (calls (step ev s))"
    using length_calls_step [of s ev] by simp
  from Cons.IH [OF c'] eq Cons.prems(2) show ?case by simp
qed

lemma promise_settled_step:
  assumes "promise_state_of s p \<noteq> Pending"
  shows "promise_state_of (step ev s) p = promise_state_of s p"
proof -
  from assms have p: "p < length (promises s)" "snd (promises s ! p) \<noteq> Pending"
    by (simp_all add: promise_state_of_def split: if_splits)
  show ?thesis
  proof (cases ev)
    case (Call i)
    show ?thesis unfolding Call step.simps using p
      by (cases i s rule: loadSection_cases) (simp_all add: promise_state_of_def nth_append)
  next
    case (Register i entry)
    then show ?thesis by (simp add: promise_state_of_def)
  next
    case (ImportSettles q result)
    with p show ?thesis by (auto simp add: promise_state_of_def nth_list_update)
  next
    case (Resume c)
    show ?thesis unfolding Resume step.simps
      by (cases c s rule: loadSection_resume_cases) (simp_all add: promise_state_of_def)
  qed
qed

lemma promise_settled_run:
  "promise_state_of s p \<noteq> Pending \<Longrightarrow> promise_state_of (run evs s) p = promise_state_of s p"
  by (induction evs arbitrary: s) (simp_all add: promise_settled_step)

lemma resume_fulfilled:
  assumes "c < length (calls s)" "awaits (calls s ! c) = Some p"
    "outcome (calls s ! c) = Pending" "promise_state_of s p = Fulfilled e"
  shows "outcome (calls (step (Resume c) s) ! c) = Fulfilled (Some e)"
    and "owner (calls s ! c) \<Longrightarrow>
         getSection (registry (step (Resume c) s)) (arg (calls s ! c)) = Some e"
    and "owner (calls s ! c) \<Longrightarrow>
         \<not> Map_has (loadPromises (registry (step (Resume c) s))) (arg (calls s ! c))"
  using assms
  by (simp_all add: loadSection_resume_def Let_def getSection_def register_def Map_get_Map_set
      Map_has_iff Map_get_Map_delete)

lemma resume_rejected:
  assumes "c < length (calls s)" "awaits (calls s ! c) = Some p"
    "outcome (calls s ! c) = Pending" "promise_state_of s p = Rejected err"
  shows "outcome (calls (step (Resume c) s) ! c) =
           (if owner (calls s ! c) then Fulfilled None else Rejected err)"
    and "registry (step (Resume c) s) =
           (if owner (calls s ! c)
            then (registry s)\<lparr>loadPromises :=
                   Map_delete (arg (calls s ! c)) (loadPromises (registry s))\<rparr>
            else registry s)"
    and "console (step (Resume c) s) =
           (if owner (calls s ! c)
            then console s @ [ErrorLine (''Failed to load section: '' @ arg (calls s ! c)) err]
            else console s)"
    and "promises (step (Resume c) s) = promises s"
  using assms by (simp_all add: loadSection_resume_def Let_def)


section \<open>Coalescing of loads\<close>

lemma coalesced_reachable: "coalesced (run evs initial)"
  by (rule coalesced_run) (rule coalesced_initial)

text \<open>
  C1, as amended. Let \<open>s\<close> be a store that some sequence of events (calls of
  \<open>loadSection\<close> and of \<open>register\<close>, settlements of imports, continuations) produces
  from the initial one.
  \<^item> A call of \<open>loadSection(i)\<close> for an identifier of the allow-list that is neither
    registered nor in \<open>loadPromises\<close> runs \<open>dynamicImport\<close> once, records its promise
    in \<open>loadPromises\<close> and is suspended.
  \<^item> A call of \<open>loadSection(i)\<close> made while \<open>loadPromises\<close> has \<open>i\<close> never runs
    \<open>dynamicImport\<close>: it changes neither the registry nor the promises, and waits for
    the very promise that a suspended earlier call created, unless other code has
    registered \<open>i\<close> in the meantime, in which case it resolves to the registered entry.
  \<^item> When a promise is fulfilled with an entry, the continuation of every call that waits
    for it, the one that created it and those that joined it alike, resolves the call to
    that entry, in whatever order the continuations run; the continuation of the call that
    created the promise registers that entry. Until its continuation runs a call stays as it
    is, and a fulfilled promise stays fulfilled.
  \<^item> \<open>dynamicImport\<close> has run once for each promise, and only in the calls that created
    one.
  \<^item> \<open>loadPromises\<close> has at most one entry for an identifier, and at most one suspended
    call that started a load for it.
  Nothing is said of the calls when the promise is rejected.
\<close>

theorem loadSection_coalesces:
  assumes reach: "s = run evs initial"
  shows "(\<forall>i. i \<in> set AVAILABLE_SECTIONS \<and> getSection (registry s) i = None \<and>
              Map_get (loadPromises (registry s)) i = None \<longrightarrow>
            loadSection i s =
              s\<lparr>registry := (registry s)
                   \<lparr>loadPromises := Map_set i (length (promises s)) (loadPromises (registry s))\<rparr>,
                promises := promises s @ [(i, dynamicImport i)],
                calls := calls s @
                  [\<lparr>arg = i, awaits = Some (length (promises s)), owner = True,
                    outcome = Pending\<rparr>]\<rparr>)
       \<and> (\<forall>i p. Map_get (loadPromises (registry s)) i = Some p \<longrightarrow>
            promises (loadSection i s) = promises s
            \<and> registry (loadSection i s) = registry s
            \<and> calls (loadSection i s) =
                calls s @
                  [case getSection (registry s) i of
                     None \<Rightarrow> \<lparr>arg = i, awaits = Some p, owner = False, outcome = Pending\<rparr>
                   | Some existing \<Rightarrow>
                       \<lparr>arg = i, awaits = None, owner = False,
                        outcome = Fulfilled (Some existing)\<rparr>]
            \<and> (\<exists>c < length (calls s). owner (calls s ! c) \<and> outcome (calls s ! c) = Pending \<and>
                  arg (calls s ! c) = i \<and> awaits (calls s ! c) = Some p))
       \<and> (\<forall>c < length (calls s). \<forall>p e.
            awaits (calls s ! c) = Some p \<and> outcome (calls s ! c) = Pending \<and>
            promise_state_of s p = Fulfilled e \<longrightarrow>
            outcome (calls (step (Resume c) s) ! c) = Fulfilled (Some e)
            \<and> (owner (calls s ! c) \<longrightarrow>
                 getSection (registry (step (Resume c) s)) (arg (calls s ! c)) = Some e))
       \<and> (\<forall>c < length (calls s). \<forall>c' < length (calls s). \<forall>p e.
            c \<noteq> c' \<and> awaits (calls s ! c) = Some p \<and> awaits (calls s ! c') = Some p \<and>
            outcome (calls s ! c) = Pending \<and> outcome (calls s ! c') = Pending \<and>
            promise_state_of s p = Fulfilled e \<longrightarrow>
            outcome (calls (run [Resume c, Resume c'] s) ! c) = Fulfilled (Some e) \<and>
            outcome (calls (run [Resume c, Resume c'] s) ! c') = Fulfilled (Some e))
       \<and> (\<forall>c < length (calls s). \<forall>evs'. Resume c \<notin> set evs' \<longrightarrow>
            calls (run evs' s) ! c = calls s ! c)
       \<and> (\<forall>p e evs'. promise_state_of s p = Fulfilled e \<longrightarrow>
            promise_state_of (run evs' s) p = Fulfilled e)
       \<and> (\<forall>c < length (calls s). \<forall>p e.
            awaits (calls s ! c) = Some p \<and> promise_state_of s p = Fulfilled e \<and>
            outcome (calls s ! c) \<noteq> Pending \<longrightarrow>
            outcome (calls s ! c) = Fulfilled (Some e))
       \<and> map awaits (filter owner (calls s)) = map Some [0..<length (promises s)]
       \<and> distinct (map fst (loadPromises (registry s)))
       \<and> (\<forall>c < length (calls s). \<forall>c' < length (calls s).
            owner (calls s ! c) \<and> outcome (calls s ! c) = Pending \<and>
            owner (calls s ! c') \<and> outcome (calls s ! c') = Pending \<and>
            arg (calls s ! c) = arg (calls s ! c') \<longrightarrow> c = c')"
proof -
  have inv: "coalesced s" unfolding reach by (rule coalesced_reachable)
  then have m: "markers_ok s" and ow: "owners_ok s" and oc: "outcomes_ok s" and f: "fetches_ok s"
    by (simp_all add: coalesced_def)
  have start: "loadSection i s =
      s\<lparr>registry := (registry s)
           \<lparr>loadPromises := Map_set i (length (promises s)) (loadPromises (registry s))\<rparr>,
        promises := promises s @ [(i, dynamicImport i)],
        calls := calls s @
          [\<lparr>arg = i, awaits = Some (length (promises s)), owner = True, outcome = Pending\<rparr>]\<rparr>"
    if "i \<in> set AVAILABLE_SECTIONS \<and> getSection (registry s) i = None \<and>
        Map_get (loadPromises (registry s)) i = None" for i
    using that by (simp add: loadSection_def Let_def)
  have join: "promises (loadSection i s) = promises s
      \<and> registry (loadSection i s) = registry s
      \<and> calls (loadSection i s) =
          calls s @
            [case getSection (registry s) i of
               None \<Rightarrow> \<lparr>arg = i, awaits = Some p, owner = False, outcome = Pending\<rparr>
             | Some existing \<Rightarrow>
                 \<lparr>arg = i, awaits = None, owner = False, outcome = Fulfilled (Some existing)\<rparr>]
      \<and> (\<exists>c < length (calls s). owner (calls s ! c) \<and> outcome (calls s ! c) = Pending \<and>
            arg (calls s ! c) = i \<and> awaits (calls s ! c) = Some p)"
    if mk: "Map_get (loadPromises (registry s)) i = Some p" for i p
  proof -
    from m mk have av: "i \<in> set AVAILABLE_SECTIONS"
      and ex: "\<exists>c < length (calls s). owner (calls s ! c) \<and> outcome (calls s ! c) = Pending \<and>
            arg (calls s ! c) = i \<and> awaits (calls s ! c) = Some p"
      unfolding markers_ok_def by blast+
    with mk show ?thesis
      by (cases "getSection (registry s) i") (simp_all add: loadSection_def)
  qed
  have settle: "outcome (calls (step (Resume c) s) ! c) = Fulfilled (Some e)
      \<and> (owner (calls s ! c) \<longrightarrow>
           getSection (registry (step (Resume c) s)) (arg (calls s ! c)) = Some e)"
    if "c < length (calls s)" "awaits (calls s ! c) = Some p \<and> outcome (calls s ! c) = Pending \<and>
        promise_state_of s p = Fulfilled e" for c p e
    using that resume_fulfilled(1,2) [of c s p e] by blast
  have both: "outcome (calls (run [Resume c, Resume c'] s) ! c) = Fulfilled (Some e) \<and>
      outcome (calls (run [Resume c, Resume c'] s) ! c') = Fulfilled (Some e)"
    if c: "c < length (calls s)" and c': "c' < length (calls s)"
      and h: "c \<noteq> c' \<and> awaits (calls s ! c) = Some p \<and> awaits (calls s ! c') = Some p \<and>
        outcome (calls s ! c) = Pending \<and> outcome (calls s ! c') = Pending \<and>
        promise_state_of s p = Fulfilled e" for c c' p e
  proof -
    let ?s1 = "step (Resume c) s"
    from c h have o1: "outcome (calls ?s1 ! c) = Fulfilled (Some e)"
      using resume_fulfilled(1) [of c s p e] by blast
    from c have len1: "c < length (calls ?s1)"
      using length_calls_step [of s "Resume c"] by simp
    from c' have len1': "c' < length (calls ?s1)"
      using length_calls_step [of s "Resume c"] by simp
    from h have ne: "Resume c \<noteq> Resume c'" by simp
    from c' ne have same: "calls ?s1 ! c' = calls s ! c'"
      using call_unchanged_step [of c' s "Resume c"] by simp
    from h have st1: "promise_state_of ?s1 p = Fulfilled e"
      using promise_settled_step [of s p "Resume c"] by simp
    from len1' same h st1 have o2: "outcome (calls (step (Resume c') ?s1) ! c') = Fulfilled (Some e)"
      using resume_fulfilled(1) [of c' ?s1 p e] by simp
    from len1 o1 have "calls (step (Resume c') ?s1) ! c = calls ?s1 ! c"
      using settled_call_step [of c ?s1 "Resume c'"] by simp
    with o1 o2 show ?thesis by simp
  qed
  have keep: "calls (run evs' s) ! c = calls s ! c"
    if "c < length (calls s)" "Resume c \<notin> set evs'" for c evs'
    using that call_unchanged_run [of c s evs'] by simp
  have pkeep: "promise_state_of (run evs' s) p = Fulfilled e"
    if "promise_state_of s p = Fulfilled e" for p e evs'
    using that promise_settled_run [of s p evs'] by simp
  have same: "outcome (calls s ! c) = Fulfilled (Some e)"
    if "c < length (calls s)" "awaits (calls s ! c) = Some p \<and>
      promise_state_of s p = Fulfilled e \<and> outcome (calls s ! c) \<noteq> Pending" for c p e
  proof -
    from oc that
    have "settles (owner (calls s ! c)) (promise_state_of s p) (outcome (calls s ! c))"
      unfolding outcomes_ok_def by blast
    with that(2) show ?thesis by (cases "outcome (calls s ! c)") simp_all
  qed
  have fetch: "map awaits (filter owner (calls s)) = map Some [0..<length (promises s)]"
    using f by (simp add: fetches_ok_def)
  have dist: "distinct (map fst (loadPromises (registry s)))"
    using m by (simp add: markers_ok_def)
  have uniq: "c = c'"
    if "c < length (calls s)" "c' < length (calls s)"
      "owner (calls s ! c) \<and> outcome (calls s ! c) = Pending \<and>
       owner (calls s ! c') \<and> outcome (calls s ! c') = Pending \<and>
       arg (calls s ! c) = arg (calls s ! c')" for c c'
    using ow that unfolding owners_ok_def by blast
  show ?thesis
  proof (intro conjI allI impI)
    qed (use start join settle both keep pkeep same fetch dist uniq in blast)+
qed

text \<open>
  Two calls for the hero section before the import settles run \<open>dynamicImport\<close> once;
  then the import succeeds and both continuations run: both calls resolve to the entry
  built from the module.
\<close>

theorem loadSection_coalesces_witness:
  "length (promises (run [Call ''hero'', Call ''hero''] initial)) = 1
   \<and> outcome (calls (run [Call ''hero'', Call ''hero'', ImportSettles 0 (Inr heroModule),
      Resume 0, Resume 1] initial) ! 0) = Fulfilled (Some heroEntry)
   \<and> outcome (calls (run [Call ''hero'', Call ''hero'', ImportSettles 0 (Inr heroModule),
      Resume 0, Resume 1] initial) ! 1) = Fulfilled (Some heroEntry)"
proof -
  let ?evs = "[Call ''hero'', Call ''hero'', ImportSettles 0 (Inr heroModule)]"
  let ?s = "run ?evs initial"
  have s: "?s = \<lparr>registry = \<lparr>sections = [], loadPromises = [(''hero'', 0)]\<rparr>,
      promises = [(''hero'', Fulfilled heroEntry)],
      calls = [\<lparr>arg = ''hero'', awaits = Some 0, owner = True, outcome = Pending\<rparr>,
               \<lparr>arg = ''hero'', awaits = Some 0, owner = False, outcome = Pending\<rparr>],
      console = []\<rparr>"
    by (simp add: initial_def loadSection_def AVAILABLE_SECTIONS_def getSection_def Map_get_def
        dynamicImport_def dynamicImport_settled_def Let_def heroModule_def heroEntry_def)
  have one: "length (promises (run [Call ''hero'', Call ''hero''] initial)) = 1"
    by (simp add: initial_def loadSection_def AVAILABLE_SECTIONS_def getSection_def Map_get_def
        dynamicImport_def Let_def)
  have pre: "0 < length (calls ?s)" "1 < length (calls ?s)"
    "(0::nat) \<noteq> 1 \<and> awaits (calls ?s ! 0) = Some 0 \<and> awaits (calls ?s ! 1) = Some 0 \<and>
     outcome (calls ?s ! 0) = Pending \<and> outcome (calls ?s ! 1) = Pending \<and>
     promise_state_of ?s 0 = Fulfilled heroEntry"
    unfolding s by (simp_all add: promise_state_of_def)
  from loadSection_coalesces [OF refl, of ?evs]
  have "\<forall>c < length (calls ?s). \<forall>c' < length (calls ?s). \<forall>p e.
          c \<noteq> c' \<and> awaits (calls ?s ! c) = Some p \<and> awaits (calls ?s ! c') = Some p \<and>
          outcome (calls ?s ! c) = Pending \<and> outcome (calls ?s ! c') = Pending \<and>
          promise_state_of ?s p = Fulfilled e \<longrightarrow>
          outcome (calls (run [Resume c, Resume c'] ?s) ! c) = Fulfilled (Some e) \<and>
          outcome (calls (run [Resume c, Resume c'] ?s) ! c') = Fulfilled (Some e)"
    by blast
  with pre have both: "outcome (calls (run [Resume 0, Resume 1] ?s) ! 0) = Fulfilled (Some heroEntry) \<and>
      outcome (calls (run [Resume 0, Resume 1] ?s) ! 1) = Fulfilled (Some heroEntry)"
    by blast
  have r: "run [Call ''hero'', Call ''hero'', ImportSettles 0 (Inr heroModule),
      Resume 0, Resume 1] initial = run [Resume 0, Resume 1] ?s"
    by simp
  from both one show ?thesis unfolding r by blast
qed

text \<open>
  The claim as stated fails when the import is rejected: of two coalesced calls the first
  resolves to \<open>null\<close> and the second, which returned the promise of \<open>dynamicImport\<close>
  itself, is rejected; neither resolves to an entry. \<open>dynamicImport\<close> has still run once.
\<close>

theorem loadSection_coalesces_counterexample:
  "outcome (calls (run [Call ''hero'', Call ''hero'', ImportSettles 0 (Inl ''ChunkLoadError''),
      Resume 0, Resume 1] initial) ! 0) = Fulfilled None
   \<and> outcome (calls (run [Call ''hero'', Call ''hero'', ImportSettles 0 (Inl ''ChunkLoadError''),
      Resume 0, Resume 1] initial) ! 1) = Rejected ''ChunkLoadError''
   \<and> length (promises (run [Call ''hero'', Call ''hero'', ImportSettles 0 (Inl ''ChunkLoadError''),
      Resume 0, Resume 1] initial)) = 1"
  by (simp add: initial_def loadSection_def loadSection_resume_def AVAILABLE_SECTIONS_def
      getSection_def Map_get_def dynamicImport_def dynamicImport_settled_def
      promise_state_of_def Map_delete_def Let_def)

section \<open>The allow-list\<close>

text \<open>
  C5, as amended. The allow-list is \<open>['hero']\<close>. For an identifier that is not in it,
  such as \<open>'features'\<close>, \<open>loadSection\<close> writes the warning to the console and resolves
  to \<open>null\<close> at once; the registry, both its entries and its \<open>loadPromises\<close>, and the
  promises are as before. For \<open>'hero'\<close>, from any store \<open>s\<close> and with any events
  \<open>evs\<close> after the call:
  \<^item> where it is registered the call resolves at once to the registered entry, without a
    fetch;
  \<^item> where it is not registered the call is suspended on a promise of \<open>dynamicImport\<close>,
    the one in \<open>loadPromises\<close> or else a new one, and stays so until its continuation
    runs; if by then the promise is fulfilled with an entry, the call resolves to that
    entry and, if the call created the promise, the entry is registered; if the promise of
    the call's own fetch is rejected, the call resolves to \<open>null\<close>;
  \<^item> the new promise is pending, and is fulfilled with the entry built from the module
    when the import succeeds.
\<close>

theorem loadSection_allow_list:
  "(i \<notin> set AVAILABLE_SECTIONS \<longrightarrow>
      registry (loadSection i s) = registry s
      \<and> promises (loadSection i s) = promises s
      \<and> calls (loadSection i s) =
          calls s @ [\<lparr>arg = i, awaits = None, owner = False, outcome = Fulfilled None\<rparr>]
      \<and> console (loadSection i s) =
          console s @ [Warn (''Section '' @ i @ '' is not implemented yet'')])
   \<and> ''features'' \<notin> set AVAILABLE_SECTIONS
   \<and> ''hero'' \<in> set AVAILABLE_SECTIONS
   \<and> (\<forall>existing. getSection (registry s) ''hero'' = Some existing \<longrightarrow>
        registry (step (Call ''hero'') s) = registry s
        \<and> promises (step (Call ''hero'') s) = promises s
        \<and> outcome (calls (run evs (step (Call ''hero'') s)) ! length (calls s)) =
            Fulfilled (Some existing))
   \<and> (getSection (registry s) ''hero'' = None \<and> Resume (length (calls s)) \<notin> set evs \<longrightarrow>
        calls (run evs (step (Call ''hero'') s)) ! length (calls s) =
          (case Map_get (loadPromises (registry s)) ''hero'' of
             None \<Rightarrow> \<lparr>arg = ''hero'', awaits = Some (length (promises s)), owner = True,
                       outcome = Pending\<rparr>
           | Some p \<Rightarrow> \<lparr>arg = ''hero'', awaits = Some p, owner = False, outcome = Pending\<rparr>)
        \<and> (\<forall>p e. awaits (calls (step (Call ''hero'') s) ! length (calls s)) = Some p \<and>
               promise_state_of (run evs (step (Call ''hero'') s)) p = Fulfilled e \<longrightarrow>
             outcome (calls (step (Resume (length (calls s))) (run evs (step (Call ''hero'') s))) !
                      length (calls s)) = Fulfilled (Some e)
             \<and> (Map_get (loadPromises (registry s)) ''hero'' = None \<longrightarrow>
                  getSection (registry (step (Resume (length (calls s)))
                     (run evs (step (Call ''hero'') s)))) ''hero'' = Some e))
        \<and> (\<forall>err. Map_get (loadPromises (registry s)) ''hero'' = None \<and>
               promise_state_of (run evs (step (Call ''hero'') s)) (length (promises s)) =
                 Rejected err \<longrightarrow>
             outcome (calls (step (Resume (length (calls s))) (run evs (step (Call ''hero'') s))) !
                      length (calls s)) = Fulfilled None))
   \<and> (getSection (registry s) ''hero'' = None \<and>
       Map_get (loadPromises (registry s)) ''hero'' = None \<longrightarrow>
        promise_state_of (step (Call ''hero'') s) (length (promises s)) = Pending
        \<and> promise_state_of
            (step (ImportSettles (length (promises s)) (Inr m)) (step (Call ''hero'') s))
            (length (promises s)) =
          Fulfilled \<lparr>config = export_heroSectionConfig m, component = export_default m\<rparr>)"
proof (intro conjI impI allI)
  assume "i \<notin> set AVAILABLE_SECTIONS"
  then show "registry (loadSection i s) = registry s"
    "promises (loadSection i s) = promises s"
    "calls (loadSection i s) =
       calls s @ [\<lparr>arg = i, awaits = None, owner = False, outcome = Fulfilled None\<rparr>]"
    "console (loadSection i s) =
       console s @ [Warn (''Section '' @ i @ '' is not implemented yet'')]"
    by (simp_all add: loadSection_def)
next
  show "''features'' \<notin> set AVAILABLE_SECTIONS" "''hero'' \<in> set AVAILABLE_SECTIONS"
    by (simp_all add: AVAILABLE_SECTIONS_def)
next
  fix existing assume ex: "getSection (registry s) ''hero'' = Some existing"
  let ?s1 = "step (Call ''hero'') s"
  from ex have s1: "?s1 = s\<lparr>calls := calls s @
      [\<lparr>arg = ''hero'', awaits = None, owner = False, outcome = Fulfilled (Some existing)\<rparr>]\<rparr>"
    by (simp add: loadSection_def AVAILABLE_SECTIONS_def)
  show "registry ?s1 = registry s" "promises ?s1 = promises s"
    unfolding s1 by simp_all
  have "length (calls s) < length (calls ?s1)"
    "outcome (calls ?s1 ! length (calls s)) \<noteq> Pending"
    "calls ?s1 ! length (calls s) =
       \<lparr>arg = ''hero'', awaits = None, owner = False, outcome = Fulfilled (Some existing)\<rparr>"
    unfolding s1 by simp_all
  then show "outcome (calls (run evs ?s1) ! length (calls s)) = Fulfilled (Some existing)"
    using settled_call_run [of "length (calls s)" ?s1 evs] by simp
next
  assume h: "getSection (registry s) ''hero'' = None \<and> Resume (length (calls s)) \<notin> set evs"
  let ?c = "length (calls s)"
  let ?s1 = "step (Call ''hero'') s"
  let ?s2 = "run evs ?s1"
  let ?k = "case Map_get (loadPromises (registry s)) ''hero'' of
             None \<Rightarrow> \<lparr>arg = ''hero'', awaits = Some (length (promises s)), owner = True,
                       outcome = Pending\<rparr>
           | Some p \<Rightarrow> \<lparr>arg = ''hero'', awaits = Some p, owner = False, outcome = Pending\<rparr>"
  from h have k1: "calls ?s1 ! ?c = ?k" and len1: "?c < length (calls ?s1)"
    by (simp_all add: loadSection_def AVAILABLE_SECTIONS_def Let_def split: option.splits)
  from len1 h have keep: "calls ?s2 ! ?c = calls ?s1 ! ?c" and len2: "?c < length (calls ?s2)"
    using call_unchanged_run [of ?c ?s1 evs] by simp_all
  from keep k1 show k2: "calls ?s2 ! ?c = ?k" by simp
  have pend: "outcome (calls ?s2 ! ?c) = Pending"
    unfolding k2 by (simp split: option.splits)
  have own: "owner (calls ?s2 ! ?c) \<longleftrightarrow> Map_get (loadPromises (registry s)) ''hero'' = None"
    unfolding k2 by (simp split: option.splits)
  have arg: "arg (calls ?s2 ! ?c) = ''hero''"
    unfolding k2 by (simp split: option.splits)
  {
    fix p e
    assume a: "awaits (calls ?s1 ! ?c) = Some p \<and> promise_state_of ?s2 p = Fulfilled e"
    with keep have aw: "awaits (calls ?s2 ! ?c) = Some p" by simp
    from resume_fulfilled(1) [OF len2 aw pend] a
    show "outcome (calls (step (Resume ?c) ?s2) ! ?c) = Fulfilled (Some e)" by simp
    assume "Map_get (loadPromises (registry s)) ''hero'' = None"
    with own have "owner (calls ?s2 ! ?c)" by simp
    from resume_fulfilled(2) [OF len2 aw pend _ this] a arg
    show "getSection (registry (step (Resume ?c) ?s2)) ''hero'' = Some e" by simp
  }
  {
    fix err
    assume a: "Map_get (loadPromises (registry s)) ''hero'' = None \<and>
      promise_state_of ?s2 (length (promises s)) = Rejected err"
    with k2 have aw: "awaits (calls ?s2 ! ?c) = Some (length (promises s))" by simp
    from a own have "owner (calls ?s2 ! ?c)" by simp
    with resume_rejected(1) [OF len2 aw pend] a
    show "outcome (calls (step (Resume ?c) ?s2) ! ?c) = Fulfilled None" by simp
  }
next
  assume h: "getSection (registry s) ''hero'' = None \<and>
    Map_get (loadPromises (registry s)) ''hero'' = None"
  then have s1: "step (Call ''hero'') s =
      s\<lparr>registry := (registry s)
           \<lparr>loadPromises := Map_set ''hero'' (length (promises s)) (loadPromises (registry s))\<rparr>,
        promises := promises s @ [(''hero'', Pending)],
        calls := calls s @
          [\<lparr>arg = ''hero'', awaits = Some (length (promises s)), owner = True,
            outcome = Pending\<rparr>]\<rparr>"
    by (simp add: loadSection_def AVAILABLE_SECTIONS_def dynamicImport_def Let_def)
  show "promise_state_of (step (Call ''hero'') s) (length (promises s)) = Pending"
    unfolding s1 by (simp add: promise_state_of_def)
  show "promise_state_of
          (step (ImportSettles (length (promises s)) (Inr m)) (step (Call ''hero'') s))
          (length (promises s)) =
        Fulfilled \<lparr>config = export_heroSectionConfig m, component = export_default m\<rparr>"
    unfolding s1 by (simp add: promise_state_of_def dynamicImport_settled_def)
qed

text \<open>From the initial store, with the hero module of the repository.\<close>

theorem loadSection_allow_list_witness:
  "registry (loadSection ''features'' initial) = registry initial
   \<and> outcome (calls (loadSection ''features'' initial) ! 0) = Fulfilled None
   \<and> console (loadSection ''features'' initial) = [Warn ''Section features is not implemented yet'']
   \<and> outcome (calls (run [Call ''hero'', ImportSettles 0 (Inr heroModule), Resume 0] initial) ! 0) =
       Fulfilled (Some heroEntry)
   \<and> getSection (registry (run [Call ''hero'', ImportSettles 0 (Inr heroModule), Resume 0] initial))
        ''hero'' = Some heroEntry"
proof -
  let ?evs = "[ImportSettles 0 (Inr heroModule)]"
  let ?s2 = "run ?evs (step (Call ''hero'') initial)"
  note th = loadSection_allow_list [of "''features''" initial ?evs heroModule]
  have feat: "''features'' \<notin> set AVAILABLE_SECTIONS" using th by blast
  with th have a: "registry (loadSection ''features'' initial) = registry initial"
    "calls (loadSection ''features'' initial) =
       calls initial @ [\<lparr>arg = ''features'', awaits = None, owner = False, outcome = Fulfilled None\<rparr>]"
    "console (loadSection ''features'' initial) =
       console initial @ [Warn (''Section '' @ ''features'' @ '' is not implemented yet'')]"
    by blast+
  have pre: "getSection (registry initial) ''hero'' = None \<and> Resume (length (calls initial)) \<notin> set ?evs"
    "Map_get (loadPromises (registry initial)) ''hero'' = None"
    "length (calls initial) = 0" "length (promises initial) = 0"
    by (simp_all add: initial_def getSection_def Map_get_def)
  have s1: "step (Call ''hero'') initial =
      \<lparr>registry = \<lparr>sections = [], loadPromises = [(''hero'', 0)]\<rparr>,
       promises = [(''hero'', Pending)],
       calls = [\<lparr>arg = ''hero'', awaits = Some 0, owner = True, outcome = Pending\<rparr>],
       console = []\<rparr>"
    by (simp add: initial_def loadSection_def AVAILABLE_SECTIONS_def getSection_def Map_get_def
        dynamicImport_def Let_def)
  have aw: "awaits (calls (step (Call ''hero'') initial) ! length (calls initial)) = Some 0"
    unfolding s1 by (simp add: initial_def)
  have st: "promise_state_of ?s2 0 = Fulfilled heroEntry"
    unfolding s1 by (simp add: promise_state_of_def dynamicImport_settled_def heroModule_def
        heroEntry_def)
  from th pre(1) have "\<forall>p e. awaits (calls (step (Call ''hero'') initial) ! length (calls initial)) = Some p \<and>
        promise_state_of ?s2 p = Fulfilled e \<longrightarrow>
        outcome (calls (step (Resume (length (calls initial))) ?s2) ! length (calls initial)) =
          Fulfilled (Some e)
        \<and> (Map_get (loadPromises (registry initial)) ''hero'' = None \<longrightarrow>
             getSection (registry (step (Resume (length (calls initial))) ?s2)) ''hero'' = Some e)"
    by blast
  with aw st pre(2)
  have b: "outcome (calls (step (Resume (length (calls initial))) ?s2) ! length (calls initial)) =
      Fulfilled (Some heroEntry)"
    "getSection (registry (step (Resume (length (calls initial))) ?s2)) ''hero'' = Some heroEntry"
    by blast+
  have r: "run [Call ''hero'', ImportSettles 0 (Inr heroModule), Resume 0] initial =
      step (Resume (length (calls initial))) ?s2"
    by (simp add: pre(3))
  from a have a': "registry (loadSection ''features'' initial) = registry initial"
    "outcome (calls (loadSection ''features'' initial) ! 0) = Fulfilled None"
    "console (loadSection ''features'' initial) = [Warn ''Section features is not implemented yet'']"
    by (simp_all add: initial_def)
  from a' b show ?thesis unfolding r pre(3) by blast
qed

text \<open>
  The claim as stated fails when the import of the hero module fails: the call resolves to
  \<open>null\<close> and nothing is registered.
\<close>

theorem loadSection_allow_list_counterexample:
  "outcome (calls (run [Call ''hero'', ImportSettles 0 (Inl ''ChunkLoadError''), Resume 0] initial) ! 0)
     = Fulfilled None
   \<and> getSection (registry (run [Call ''hero'', ImportSettles 0 (Inl ''ChunkLoadError''), Resume 0]
       initial)) ''hero'' = None"
  by (simp add: initial_def loadSection_def loadSection_resume_def AVAILABLE_SECTIONS_def
      getSection_def Map_get_def dynamicImport_def dynamicImport_settled_def
      promise_state_of_def Map_delete_def Let_def)

section \<open>Failure and cleanup\<close>






end
